theory Spec2Isabelle
  imports Main "HOL-Library.Word"
begin

unbundle bit_operations_syntax

section \<open>Governed state machines: the data model\<close>

text \<open>
  The development follows the Go package \<^verbatim>\<open>gsm\<close>: variables and their bit layout
  (\<^verbatim>\<open>var.go\<close>), the packed state and its accessors, the declaration builder, the
  build-time verifier (\<^verbatim>\<open>verify.go\<close>) and the immutable machine
  (\<^verbatim>\<open>machine.go\<close>).

  Go's \<^verbatim>\<open>uint64\<close> is \<^typ>\<open>64 word\<close>. Go's \<^verbatim>\<open>int\<close> is a 64-bit signed integer:
  its values (domain sizes, minima, the arguments of \<^verbatim>\<open>SetInt\<close>) are integers in
  \<open>[-2^63, 2^63)\<close>, and every sum or difference the code computes on them is wrapped
  back into that range by \<open>go_int\<close>, a conversion to \<^verbatim>\<open>uint64\<close> wraps by
  \<open>word_of_int\<close>, and one back to \<^verbatim>\<open>int\<close> reads the word as two's complement
  (\<open>sint\<close>). Bit counts, offsets and slice indices (\<^verbatim>\<open>uint\<close> and non-negative
  \<^verbatim>\<open>int\<close>) are \<^typ>\<open>nat\<close>. A slice read out of range panics in Go and is an
  error value here.
\<close>

datatype VarKind = BoolKind | EnumKind | IntKind

record Var =
  var_name :: string
  var_kind :: VarKind
  var_index :: nat
  var_offset :: nat
  var_bits :: nat
  var_domain :: int
  var_labels :: "string list"
  var_min :: int

text \<open>
  A \<^verbatim>\<open>State\<close> is the packed integer; its second field, the shared reference to the
  variable list, is only read by the formatter and is carried by the builder and the
  machine here.
\<close>

type_synonym State = "64 word"

type_synonym CheckFunc = "State \<Rightarrow> bool"
type_synonym EffectFunc = "State \<Rightarrow> State"

datatype error =
    EnumNoValue string string
  | UnknownEvent string
  | IndexOutOfRange
  | EnumTooFewValues string
  | IntMaxBelowMin string
  | NoCheckFunction string
  | NoRepairFunction string
  | NoEffectFunction string
  | StateSpaceTooLarge nat
  | StateSpaceExceedsLimit int
  | WFCFailed
  | MovesValidState State
  | CCFailed nat nat State State State

subsection \<open>Variables (\<^verbatim>\<open>var.go\<close>)\<close>

function bitsLoop :: "int \<Rightarrow> nat \<Rightarrow> nat" where
  "bitsLoop n b = (if n > 0 then bitsLoop (n div 2) (b + 1) else b)"
  by pat_completeness auto
termination
  by (relation "measure (\<lambda>(n, b). nat n)") auto

declare bitsLoop.simps [simp del]

definition bitsNeeded :: "int \<Rightarrow> nat" where
  "bitsNeeded n = (if n \<le> 1 then 0 else bitsLoop (n - 1) 0)"

fun enumIndexFrom :: "string list \<Rightarrow> string \<Rightarrow> nat \<Rightarrow> nat option" where
  "enumIndexFrom [] val i = None"
| "enumIndexFrom (l # ls) val i = (if l = val then Some i else enumIndexFrom ls val (i + 1))"

definition enumIndex :: "Var \<Rightarrow> string \<Rightarrow> error + nat" where
  "enumIndex v val =
     (case enumIndexFrom (var_labels v) val 0 of
        Some i \<Rightarrow> Inr i
      | None \<Rightarrow> Inl (EnumNoValue (var_name v) val))"

subsection \<open>The packed state and its accessors\<close>

definition getRaw :: "State \<Rightarrow> Var \<Rightarrow> 64 word" where
  "getRaw s v = drop_bit (var_offset v) s AND mask (var_bits v)"

definition setRaw :: "State \<Rightarrow> Var \<Rightarrow> 64 word \<Rightarrow> State" where
  "setRaw s v val =
     (s AND NOT (push_bit (var_offset v) (mask (var_bits v))))
       OR push_bit (var_offset v) (val AND mask (var_bits v))"

definition GetBool :: "State \<Rightarrow> Var \<Rightarrow> bool" where
  "GetBool s v = (getRaw s v \<noteq> 0)"

text \<open>The result of an arithmetic operation on \<^verbatim>\<open>int\<close>, wrapped to 64 bits.\<close>

definition go_int :: "int \<Rightarrow> int" where
  "go_int x = sint (word_of_int x :: 64 word)"

definition GetInt :: "State \<Rightarrow> Var \<Rightarrow> int" where
  "GetInt s v = go_int (sint (getRaw s v) + var_min v)"

definition Set :: "State \<Rightarrow> Var \<Rightarrow> string \<Rightarrow> error + State" where
  "Set s v val =
     (case enumIndex v val of
        Inl e \<Rightarrow> Inl e
      | Inr idx \<Rightarrow> Inr (setRaw s v (word_of_nat idx)))"

definition SetBool :: "State \<Rightarrow> Var \<Rightarrow> bool \<Rightarrow> State" where
  "SetBool s v val = (if val then setRaw s v 1 else setRaw s v 0)"

definition SetInt :: "State \<Rightarrow> Var \<Rightarrow> int \<Rightarrow> State" where
  "SetInt s v val =
     (let maxv = go_int (var_min v + var_domain v - 1);
          val1 = (if val < var_min v then var_min v else val);
          val2 = (if val1 > maxv then maxv else val1)
      in setRaw s v (word_of_int (val2 - var_min v)))"

subsection \<open>The declaration builder\<close>

record invariantDef =
  inv_name :: string
  inv_footprint :: "nat list"
  inv_check :: CheckFunc
  inv_repair :: EffectFunc

text \<open>An event's guard may be \<^verbatim>\<open>nil\<close>: it is an option.\<close>

record eventDef =
  ev_name :: string
  ev_writes :: "nat list"
  ev_guard :: "CheckFunc option"
  ev_effect :: EffectFunc

record Builder =
  b_name :: string
  b_vars :: "Var list"
  b_invariants :: "invariantDef list"
  b_events :: "eventDef list"
  b_totalBits :: nat
  b_independent :: "(nat \<times> nat) list"
  b_allIndependent :: bool

definition NewBuilder :: "string \<Rightarrow> Builder" where
  "NewBuilder name =
     \<lparr>b_name = name, b_vars = [], b_invariants = [], b_events = [], b_totalBits = 0,
      b_independent = [], b_allIndependent = True\<rparr>"

fun eventIndexFrom :: "eventDef list \<Rightarrow> string \<Rightarrow> nat \<Rightarrow> nat option" where
  "eventIndexFrom [] name i = None"
| "eventIndexFrom (ev # evs) name i =
     (if ev_name ev = name then Some i else eventIndexFrom evs name (i + 1))"

definition eventIndex :: "Builder \<Rightarrow> string \<Rightarrow> error + nat" where
  "eventIndex b name =
     (case eventIndexFrom (b_events b) name 0 of
        Some i \<Rightarrow> Inr i
      | None \<Rightarrow> Inl (UnknownEvent name))"

definition Independent :: "Builder \<Rightarrow> string \<Rightarrow> string \<Rightarrow> error + Builder" where
  "Independent b e1name e2name =
     (case eventIndex b e1name of
        Inl e \<Rightarrow> Inl e
      | Inr i \<Rightarrow>
          (case eventIndex b e2name of
             Inl e \<Rightarrow> Inl e
           | Inr j \<Rightarrow> Inr (b\<lparr>b_independent := b_independent b @ [(i, j)]\<rparr>)))"

definition DeclaredIndependence :: "Builder \<Rightarrow> Builder" where
  "DeclaredIndependence b = b\<lparr>b_allIndependent := False\<rparr>"

text \<open>
  The three variable declarations append a variable at the current bit offset and
  return its handle together with the updated builder.
\<close>

definition Bool :: "Builder \<Rightarrow> string \<Rightarrow> Var \<times> Builder" where
  "Bool b name =
     (let v = \<lparr>var_name = name, var_kind = BoolKind, var_index = length (b_vars b),
                var_offset = b_totalBits b, var_bits = 1, var_domain = 2,
                var_labels = [], var_min = 0\<rparr>
      in (v, b\<lparr>b_totalBits := b_totalBits b + 1, b_vars := b_vars b @ [v]\<rparr>))"

definition Enum :: "Builder \<Rightarrow> string \<Rightarrow> string list \<Rightarrow> error + Var \<times> Builder" where
  "Enum b name vals =
     (if length vals < 2 then Inl (EnumTooFewValues name)
      else
        let bits = bitsNeeded (int (length vals));
            v = \<lparr>var_name = name, var_kind = EnumKind, var_index = length (b_vars b),
                 var_offset = b_totalBits b, var_bits = bits, var_domain = int (length vals),
                 var_labels = vals, var_min = 0\<rparr>
        in Inr (v, b\<lparr>b_totalBits := b_totalBits b + bits, b_vars := b_vars b @ [v]\<rparr>))"

text \<open>
  \<^verbatim>\<open>domain := max - min + 1\<close> is computed on 64-bit signed integers: the result is
  read back from the 64-bit word. (\<^verbatim>\<open>Int\<close> is the declaration \<^verbatim>\<open>Builder.Int\<close>; the
  name alone is taken in HOL.)
\<close>

definition Int_var :: "Builder \<Rightarrow> string \<Rightarrow> int \<Rightarrow> int \<Rightarrow> error + Var \<times> Builder" where
  "Int_var b name minv maxv =
     (if maxv < minv then Inl (IntMaxBelowMin name)
      else
        let domain = go_int (maxv - minv + 1);
            bits = bitsNeeded domain;
            v = \<lparr>var_name = name, var_kind = IntKind, var_index = length (b_vars b),
                 var_offset = b_totalBits b, var_bits = bits, var_domain = domain,
                 var_labels = [], var_min = minv\<rparr>
        in Inr (v, b\<lparr>b_totalBits := b_totalBits b + bits, b_vars := b_vars b @ [v]\<rparr>))"

text \<open>
  The fluent invariant and event builders collect a definition whose functions may
  still be missing (\<^verbatim>\<open>nil\<close>); \<^verbatim>\<open>Add\<close> panics on a missing one and registers the
  definition otherwise.
\<close>

record InvariantBuilder =
  ib_name :: string
  ib_footprint :: "nat list"
  ib_check :: "CheckFunc option"
  ib_repair :: "EffectFunc option"

definition Invariant :: "string \<Rightarrow> InvariantBuilder" where
  "Invariant name = \<lparr>ib_name = name, ib_footprint = [], ib_check = None, ib_repair = None\<rparr>"

definition Over :: "InvariantBuilder \<Rightarrow> Var list \<Rightarrow> InvariantBuilder" where
  "Over ib vs = ib\<lparr>ib_footprint := ib_footprint ib @ map var_index vs\<rparr>"

definition Check :: "InvariantBuilder \<Rightarrow> CheckFunc \<Rightarrow> InvariantBuilder" where
  "Check ib fn = ib\<lparr>ib_check := Some fn\<rparr>"

definition Repair :: "InvariantBuilder \<Rightarrow> EffectFunc \<Rightarrow> InvariantBuilder" where
  "Repair ib fn = ib\<lparr>ib_repair := Some fn\<rparr>"

definition InvariantBuilder_Add :: "Builder \<Rightarrow> InvariantBuilder \<Rightarrow> error + Builder" where
  "InvariantBuilder_Add b ib =
     (case ib_check ib of
        None \<Rightarrow> Inl (NoCheckFunction (ib_name ib))
      | Some chk \<Rightarrow>
          (case ib_repair ib of
             None \<Rightarrow> Inl (NoRepairFunction (ib_name ib))
           | Some rep \<Rightarrow>
               Inr (b\<lparr>b_invariants := b_invariants b @
                      [\<lparr>inv_name = ib_name ib, inv_footprint = ib_footprint ib,
                        inv_check = chk, inv_repair = rep\<rparr>]\<rparr>)))"

record EventBuilder =
  eb_name :: string
  eb_writes :: "nat list"
  eb_guard :: "CheckFunc option"
  eb_effect :: "EffectFunc option"

definition Event :: "string \<Rightarrow> EventBuilder" where
  "Event name = \<lparr>eb_name = name, eb_writes = [], eb_guard = None, eb_effect = None\<rparr>"

definition Writes :: "EventBuilder \<Rightarrow> Var list \<Rightarrow> EventBuilder" where
  "Writes eb vs = eb\<lparr>eb_writes := eb_writes eb @ map var_index vs\<rparr>"

definition Guard :: "EventBuilder \<Rightarrow> CheckFunc \<Rightarrow> EventBuilder" where
  "Guard eb fn = eb\<lparr>eb_guard := Some fn\<rparr>"

definition Apply_effect :: "EventBuilder \<Rightarrow> EffectFunc \<Rightarrow> EventBuilder" where
  "Apply_effect eb fn = eb\<lparr>eb_effect := Some fn\<rparr>"

definition EventBuilder_Add :: "Builder \<Rightarrow> EventBuilder \<Rightarrow> error + Builder" where
  "EventBuilder_Add b eb =
     (case eb_effect eb of
        None \<Rightarrow> Inl (NoEffectFunction (eb_name eb))
      | Some eff \<Rightarrow>
          Inr (b\<lparr>b_events := b_events b @
                 [\<lparr>ev_name = eb_name eb, ev_writes = eb_writes eb,
                   ev_guard = eb_guard eb, ev_effect = eff\<rparr>]\<rparr>))"

section \<open>The verifier (\<^verbatim>\<open>verify.go\<close>)\<close>

text \<open>
  Slice indexing with Go's bounds check, and the sequencing of fallible steps. A loop
  that fills a freshly made slice entry by entry, and may return an error from inside,
  is \<open>mapE\<close> over the indices: entry \<open>i\<close> is written once, in pass \<open>i\<close>, and
  the first failing pass is the result. The report (the counters and flags printed for
  the user) is not modelled; the failing pair of a CC failure is carried by the error.
\<close>

definition idx :: "'a list \<Rightarrow> nat \<Rightarrow> error + 'a" where
  "idx xs i = (if i < length xs then Inr (xs ! i) else Inl IndexOutOfRange)"

definition bindE :: "error + 'a \<Rightarrow> ('a \<Rightarrow> error + 'b) \<Rightarrow> error + 'b" where
  "bindE r f = (case r of Inl e \<Rightarrow> Inl e | Inr x \<Rightarrow> f x)"

fun mapE :: "('a \<Rightarrow> error + 'b) \<Rightarrow> 'a list \<Rightarrow> error + 'b list" where
  "mapE f [] = Inr []"
| "mapE f (x # xs) =
     (case f x of
        Inl e \<Rightarrow> Inl e
      | Inr y \<Rightarrow> (case mapE f xs of Inl e \<Rightarrow> Inl e | Inr ys \<Rightarrow> Inr (y # ys)))"

definition maxStateSpace :: int where
  "maxStateSpace = 2 ^ 20"

fun isValidEncodingLoop :: "Var list \<Rightarrow> 64 word \<Rightarrow> bool" where
  "isValidEncodingLoop [] packed = True"
| "isValidEncodingLoop (v # vs) packed =
     (let msk = (mask (var_bits v) :: 64 word);
          raw = drop_bit (var_offset v) packed AND msk
      in if sint raw \<ge> var_domain v then False else isValidEncodingLoop vs packed)"

definition isValidEncoding :: "Builder \<Rightarrow> 64 word \<Rightarrow> bool" where
  "isValidEncoding b packed = isValidEncodingLoop (b_vars b) packed"

fun allHold :: "invariantDef list \<Rightarrow> State \<Rightarrow> bool" where
  "allHold [] s = True"
| "allHold (iv # invs) s = (if \<not> inv_check iv s then False else allHold invs s)"

definition allInvariantsHold :: "Builder \<Rightarrow> State \<Rightarrow> bool" where
  "allInvariantsHold b s = allHold (b_invariants b) s"

fun firstRepair :: "invariantDef list \<Rightarrow> State \<Rightarrow> State" where
  "firstRepair [] s = s"
| "firstRepair (iv # invs) s = (if \<not> inv_check iv s then inv_repair iv s else firstRepair invs s)"

definition applyFirstRepair :: "Builder \<Rightarrow> State \<Rightarrow> State" where
  "applyFirstRepair b s = firstRepair (b_invariants b) s"

definition applyEvent :: "eventDef \<Rightarrow> State \<Rightarrow> State" where
  "applyEvent ev s =
     (case ev_guard ev of
        Some g \<Rightarrow> (if \<not> g s then s else ev_effect ev s)
      | None \<Rightarrow> ev_effect ev s)"

fun clampLoop :: "Var list \<Rightarrow> State \<Rightarrow> State" where
  "clampLoop [] s = s"
| "clampLoop (v # vs) s =
     (let raw = getRaw s v;
          maxv = (word_of_int (var_domain v - 1) :: 64 word)
      in clampLoop vs (if raw > maxv then setRaw s v maxv else s))"

definition clampState :: "Builder \<Rightarrow> State \<Rightarrow> State" where
  "clampState b s = clampLoop (b_vars b) s"

subsection \<open>Phase 1: normal forms and well-founded compensation\<close>

text \<open>
  The inner loop of \<^verbatim>\<open>computeNormalForms\<close>: repair the first violated invariant until
  every invariant holds, failing on a state seen before or when the depth exceeds the
  state count. The depth bound makes the loop total.
\<close>

function repairLoop :: "Builder \<Rightarrow> int \<Rightarrow> State set \<Rightarrow> nat \<Rightarrow> State \<Rightarrow> error + State \<times> nat" where
  "repairLoop b stateCount seen depth s =
     (if allInvariantsHold b s then Inr (s, depth)
      else if applyFirstRepair b s \<in> seen \<or> int (depth + 1) > stateCount then Inl WFCFailed
      else repairLoop b stateCount (insert (applyFirstRepair b s) seen) (depth + 1)
             (applyFirstRepair b s))"
  by pat_completeness auto
termination
  by (relation "measure (\<lambda>(b, stateCount, seen, depth, s). nat (stateCount + 1 - int depth))") auto

declare repairLoop.simps [simp del]

definition nfEntry :: "Builder \<Rightarrow> int \<Rightarrow> bool list \<Rightarrow> nat \<Rightarrow> error + State \<times> nat" where
  "nfEntry b stateCount valid i =
     (if \<not> valid ! i then Inr (word_of_nat i, 0)
      else repairLoop b stateCount {word_of_nat i} 0 (word_of_nat i))"

definition computeNormalForms :: "Builder \<Rightarrow> nat \<Rightarrow> int \<Rightarrow> bool list \<Rightarrow> error + State list" where
  "computeNormalForms b packedCount stateCount valid =
     (case mapE (nfEntry b stateCount valid) [0..<packedCount] of
        Inl e \<Rightarrow> Inl e
      | Inr entries \<Rightarrow>
          (let nf = map fst entries
           in case find (\<lambda>i. valid ! i \<and> allInvariantsHold b (word_of_nat i)
                                \<and> nf ! i \<noteq> word_of_nat i) [0..<packedCount] of
                Some i \<Rightarrow> Inl (MovesValidState (word_of_nat i))
              | None \<Rightarrow> Inr nf))"

subsection \<open>Phase 2: step tables\<close>

definition stepEntry :: "Builder \<Rightarrow> bool list \<Rightarrow> State list \<Rightarrow> eventDef \<Rightarrow> nat \<Rightarrow> error + State" where
  "stepEntry b valid nf ev i =
     (if valid ! i then
        (let s = (word_of_nat i :: State);
             after = applyEvent ev s;
             after' = clampState b after
         in idx nf (unat after'))
      else Inr 0)"

definition computeStepTables :: "Builder \<Rightarrow> nat \<Rightarrow> bool list \<Rightarrow> State list \<Rightarrow> error + State list list" where
  "computeStepTables b packedCount valid nf =
     mapE (\<lambda>ev. mapE (stepEntry b valid nf ev) [0..<packedCount]) (b_events b)"

subsection \<open>Phase 3: compensation commutativity\<close>

text \<open>The sets \<^verbatim>\<open>map[int]bool\<close> of variable indices are sets of naturals.\<close>

fun footprintLoop :: "invariantDef list \<Rightarrow> nat set \<Rightarrow> nat set \<Rightarrow> nat set" where
  "footprintLoop [] writes fp = fp"
| "footprintLoop (iv # invs) writes fp =
     (let overlaps = list_ex (\<lambda>vi. vi \<in> writes) (inv_footprint iv)
      in footprintLoop invs writes (if overlaps then fold insert (inv_footprint iv) fp else fp))"

definition eventFootprint :: "Builder \<Rightarrow> nat \<Rightarrow> error + nat set" where
  "eventFootprint b ei =
     bindE (idx (b_events b) ei) (\<lambda>ev.
       Inr (footprintLoop (b_invariants b) (fold insert (ev_writes ev) {}) {}))"

definition eventsDisjoint :: "Builder \<Rightarrow> nat \<Rightarrow> nat \<Rightarrow> error + bool" where
  "eventsDisjoint b ei ej =
     bindE (eventFootprint b ei) (\<lambda>fp1.
     bindE (eventFootprint b ej) (\<lambda>fp2.
       Inr (\<forall>v \<in> fp1. v \<notin> fp2)))"

definition allPairs :: "nat \<Rightarrow> (nat \<times> nat) list" where
  "allPairs n = concat (map (\<lambda>i. map (\<lambda>j. (i, j)) [i + 1..<n]) [0..<n])"

definition pairsToCheck :: "Builder \<Rightarrow> (nat \<times> nat) list" where
  "pairsToCheck b =
     (if b_allIndependent b then allPairs (length (b_events b))
      else map (\<lambda>(i, j). if i > j then (j, i) else (i, j)) (b_independent b))"

definition bruteCheck :: "State list list \<Rightarrow> nat \<Rightarrow> nat \<Rightarrow> nat \<Rightarrow> error + unit" where
  "bruteCheck step i j s =
     bindE (idx step j) (\<lambda>row_j.
     bindE (idx step i) (\<lambda>row_i.
     bindE (idx row_i s) (\<lambda>si.
     bindE (idx row_j (unat si)) (\<lambda>after_ij.
     bindE (idx row_j s) (\<lambda>sj.
     bindE (idx row_i (unat sj)) (\<lambda>after_ji.
       if after_ij \<noteq> after_ji
       then Inl (CCFailed i j (word_of_nat s) after_ij after_ji)
       else Inr ()))))))"

fun bruteLoop :: "bool list \<Rightarrow> State list list \<Rightarrow> nat \<Rightarrow> nat \<Rightarrow> nat list \<Rightarrow> error + unit" where
  "bruteLoop valid step i j [] = Inr ()"
| "bruteLoop valid step i j (s # ss) =
     (if \<not> valid ! s then bruteLoop valid step i j ss
      else case bruteCheck step i j s of
             Inl e \<Rightarrow> Inl e
           | Inr u \<Rightarrow> bruteLoop valid step i j ss)"

fun pairsLoop :: "Builder \<Rightarrow> nat \<Rightarrow> bool list \<Rightarrow> State list list \<Rightarrow> (nat \<times> nat) list \<Rightarrow> error + unit" where
  "pairsLoop b packedCount valid step [] = Inr ()"
| "pairsLoop b packedCount valid step ((i, j) # ps) =
     (case eventsDisjoint b i j of
        Inl e \<Rightarrow> Inl e
      | Inr True \<Rightarrow> pairsLoop b packedCount valid step ps
      | Inr False \<Rightarrow>
          (case bruteLoop valid step i j [0..<packedCount] of
             Inl e \<Rightarrow> Inl e
           | Inr u \<Rightarrow> pairsLoop b packedCount valid step ps))"

definition verifyCC :: "Builder \<Rightarrow> nat \<Rightarrow> bool list \<Rightarrow> State list list \<Rightarrow> error + unit" where
  "verifyCC b packedCount valid step = pairsLoop b packedCount valid step (pairsToCheck b)"

subsection \<open>Build and the machine (\<^verbatim>\<open>machine.go\<close>)\<close>

record Machine =
  m_name :: string
  m_vars :: "Var list"
  m_events :: "string \<rightharpoonup> nat"
  m_step :: "State list list"
  m_nf :: "State list"

definition eventsMap :: "eventDef list \<Rightarrow> (string \<rightharpoonup> nat)" where
  "eventsMap evs = fold (\<lambda>(i, ev) m. m(ev_name ev \<mapsto> i)) (enumerate 0 evs) Map.empty"

definition stateCountOf :: "Var list \<Rightarrow> int" where
  "stateCountOf vs = fold (\<lambda>v n. go_int (n * var_domain v)) vs 1"

definition validMask :: "Builder \<Rightarrow> nat \<Rightarrow> bool list" where
  "validMask b packedCount = map (\<lambda>i. isValidEncoding b (word_of_nat i)) [0..<packedCount]"

definition Build :: "Builder \<Rightarrow> error + Machine" where
  "Build b =
     (if b_totalBits b > 20 then Inl (StateSpaceTooLarge (b_totalBits b))
      else
        let stateCount = stateCountOf (b_vars b)
        in if stateCount > maxStateSpace then Inl (StateSpaceExceedsLimit stateCount)
           else
             let packedCount = 2 ^ b_totalBits b;
                 valid = validMask b packedCount
             in bindE (computeNormalForms b packedCount stateCount valid) (\<lambda>nf.
                bindE (computeStepTables b packedCount valid nf) (\<lambda>step.
                bindE (verifyCC b packedCount valid step) (\<lambda>u.
                  Inr \<lparr>m_name = b_name b, m_vars = b_vars b,
                       m_events = eventsMap (b_events b), m_step = step, m_nf = nf\<rparr>))))"

definition NewState :: "Machine \<Rightarrow> State" where
  "NewState m = 0"

definition Apply :: "Machine \<Rightarrow> State \<Rightarrow> string \<Rightarrow> error + State" where
  "Apply m s event =
     (case m_events m event of
        None \<Rightarrow> Inl (UnknownEvent event)
      | Some ei \<Rightarrow> bindE (idx (m_step m) ei) (\<lambda>row. idx row (unat s)))"

definition Normalize :: "Machine \<Rightarrow> State \<Rightarrow> error + State" where
  "Normalize m s = idx (m_nf m) (unat s)"

definition IsValid :: "Machine \<Rightarrow> State \<Rightarrow> error + bool" where
  "IsValid m s = bindE (idx (m_nf m) (unat s)) (\<lambda>t. Inr (t = s))"

section \<open>Well-formed declarations\<close>

text \<open>
  What the declaration methods establish and the proofs rely on. Every variable made by
  \<^verbatim>\<open>Bool\<close>, \<^verbatim>\<open>Enum\<close> or \<^verbatim>\<open>Int\<close> has a domain of at least one value, the
  width \<^verbatim>\<open>bitsNeeded(domain)\<close> and at most \<open>domain\<close> labels; the variables lie one
  after the other from bit 0, and \<^verbatim>\<open>totalBits\<close> is the sum of their widths;
  \<^verbatim>\<open>Independent\<close> only records indices of declared events.
\<close>

definition wf_var :: "Var \<Rightarrow> bool" where
  "wf_var v \<longleftrightarrow>
     1 \<le> var_domain v \<and> var_bits v = bitsNeeded (var_domain v)
       \<and> int (length (var_labels v)) \<le> var_domain v"

fun layout_ok :: "Var list \<Rightarrow> nat \<Rightarrow> bool" where
  "layout_ok [] off = True"
| "layout_ok (v # vs) off = (var_offset v = off \<and> wf_var v \<and> layout_ok vs (off + var_bits v))"

definition wf_builder :: "Builder \<Rightarrow> bool" where
  "wf_builder b \<longleftrightarrow>
     layout_ok (b_vars b) 0 \<and> b_totalBits b = sum_list (map var_bits (b_vars b))
       \<and> list_all (\<lambda>(i, j). i < length (b_events b) \<and> j < length (b_events b)) (b_independent b)"

text \<open>
  An id is in-domain when it lies in the padded address space and every field decodes
  to a raw value below its variable's domain.
\<close>

definition in_domain :: "Builder \<Rightarrow> State \<Rightarrow> bool" where
  "in_domain b s \<longleftrightarrow> unat s < 2 ^ b_totalBits b \<and> isValidEncoding b s"

text \<open>
  Check, repair, guard and effect are closures over \<^verbatim>\<open>State\<close>, whose fields are
  private: outside the package a closure can only produce states with \<^verbatim>\<open>Set\<close>,
  \<^verbatim>\<open>SetBool\<close> and \<^verbatim>\<open>SetInt\<close> on the builder's variables, and these keep a
  state in-domain (\<open>SetInt_in_domain\<close>, \<open>SetBool_in_domain\<close> and \<open>Set_in_domain\<close> below). The verifier clamps what an effect
  returns but not what a repair returns; the properties of the tables that speak of
  in-domain normal forms therefore assume that repairs keep in-domain states in-domain.
\<close>

text \<open>
  The domain size and the bounds of a variable are values of Go's \<^verbatim>\<open>int\<close>.
  \<^verbatim>\<open>Builder.Int\<close> computes the size as \<^verbatim>\<open>max - min + 1\<close>, which wraps when the range
  holds more than \<open>2^63 - 1\<close> values. A variable fits when its size, its minimum and
  its maximum \<open>min + domain - 1\<close> are such values, which is what the declaration
  methods give for every range that did not wrap.
\<close>

definition fits_int64 :: "Var \<Rightarrow> bool" where
  "fits_int64 v \<longleftrightarrow>
     var_domain v < 2 ^ 63 \<and> - (2 ^ 63) \<le> var_min v \<and> var_min v + var_domain v - 1 < 2 ^ 63"

definition ranges_fit :: "Builder \<Rightarrow> bool" where
  "ranges_fit b \<longleftrightarrow> list_all fits_int64 (b_vars b)"

definition repairs_keep_domain :: "Builder \<Rightarrow> bool" where
  "repairs_keep_domain b \<longleftrightarrow>
     (\<forall>iv \<in> set (b_invariants b). \<forall>s. in_domain b s \<longrightarrow> in_domain b (inv_repair iv s))"

text \<open>The per-field effect of \<^verbatim>\<open>clampState\<close>: a raw value above \<open>domain - 1\<close> becomes
  \<open>domain - 1\<close>.\<close>

definition clampRaw :: "Var \<Rightarrow> 64 word \<Rightarrow> 64 word" where
  "clampRaw v raw =
     (if raw > word_of_int (var_domain v - 1) then word_of_int (var_domain v - 1) else raw)"

section \<open>Example declarations\<close>

text \<open>
  A capped counter with a flag: \<open>x\<close> in \<open>[0, 4]\<close> (three bits, so the ids with
  field value 5, 6 and 7 are padding), a boolean \<open>flag\<close>, the invariant \<open>x \<le> 3\<close>
  repaired by \<open>x := 3\<close>, and three events. It builds; the pair of the two increments
  is checked by brute force, the two pairs with \<open>set_flag\<close> are discharged by
  disjointness.
\<close>

definition cap_x :: Var where
  "cap_x = \<lparr>var_name = ''x'', var_kind = IntKind, var_index = 0, var_offset = 0, var_bits = 3,
             var_domain = 5, var_labels = [], var_min = 0\<rparr>"

definition cap_flag :: Var where
  "cap_flag = \<lparr>var_name = ''flag'', var_kind = BoolKind, var_index = 1, var_offset = 3,
                var_bits = 1, var_domain = 2, var_labels = [], var_min = 0\<rparr>"

definition cap_builder :: Builder where
  "cap_builder =
     \<lparr>b_name = ''cap'', b_vars = [cap_x, cap_flag],
      b_invariants =
        [\<lparr>inv_name = ''x_le_3'', inv_footprint = [0],
          inv_check = (\<lambda>s. GetInt s cap_x \<le> 3), inv_repair = (\<lambda>s. SetInt s cap_x 3)\<rparr>],
      b_events =
        [\<lparr>ev_name = ''inc_one'', ev_writes = [0], ev_guard = None,
          ev_effect = (\<lambda>s. SetInt s cap_x (go_int (GetInt s cap_x + 1)))\<rparr>,
         \<lparr>ev_name = ''inc_two'', ev_writes = [0], ev_guard = None,
          ev_effect = (\<lambda>s. SetInt s cap_x (go_int (GetInt s cap_x + 2)))\<rparr>,
         \<lparr>ev_name = ''set_flag'', ev_writes = [1], ev_guard = Some (\<lambda>s. \<not> GetBool s cap_flag),
          ev_effect = (\<lambda>s. SetBool s cap_flag True)\<rparr>],
      b_totalBits = 4, b_independent = [], b_allIndependent = True\<rparr>"

definition cap_nf :: "State list" where
  "cap_nf = [0, 1, 2, 3, 3, 5, 6, 7, 8, 9, 10, 11, 11, 13, 14, 15]"

definition cap_step :: "State list list" where
  "cap_step =
     [[1, 2, 3, 3, 3, 0, 0, 0, 9, 10, 11, 11, 11, 0, 0, 0],
      [2, 3, 3, 3, 3, 0, 0, 0, 10, 11, 11, 11, 11, 0, 0, 0],
      [8, 9, 10, 11, 11, 0, 0, 0, 8, 9, 10, 11, 11, 0, 0, 0]]"

definition cap_machine :: Machine where
  "cap_machine =
     \<lparr>m_name = ''cap'', m_vars = [cap_x, cap_flag], m_events = eventsMap (b_events cap_builder),
      m_step = cap_step, m_nf = cap_nf\<rparr>"

text \<open>The same declaration without events.\<close>

definition quiet_builder :: Builder where
  "quiet_builder = cap_builder\<lparr>b_events := []\<rparr>"

text \<open>
  Two events that write the same variable \<open>x\<close> in \<open>[0, 3]\<close>, with no invariant
  declared.
\<close>

definition wr_x :: Var where
  "wr_x = \<lparr>var_name = ''x'', var_kind = IntKind, var_index = 0, var_offset = 0, var_bits = 2,
            var_domain = 4, var_labels = [], var_min = 0\<rparr>"

definition writes_builder :: Builder where
  "writes_builder =
     \<lparr>b_name = ''writes'', b_vars = [wr_x], b_invariants = [],
      b_events =
        [\<lparr>ev_name = ''set_one'', ev_writes = [0], ev_guard = None,
          ev_effect = (\<lambda>s. SetInt s wr_x 1)\<rparr>,
         \<lparr>ev_name = ''set_two'', ev_writes = [0], ev_guard = None,
          ev_effect = (\<lambda>s. SetInt s wr_x 2)\<rparr>],
      b_totalBits = 2, b_independent = [], b_allIndependent = True\<rparr>"

text \<open>
  The invariant \<open>x \<noteq> 3\<close> on the same variable, repaired by \<open>x := 0\<close>, and two
  events whose guards are true only in the invalid state \<open>x = 3\<close>.
\<close>

definition guarded_builder :: Builder where
  "guarded_builder =
     \<lparr>b_name = ''guarded'', b_vars = [wr_x],
      b_invariants =
        [\<lparr>inv_name = ''x_ne_3'', inv_footprint = [0],
          inv_check = (\<lambda>s. GetInt s wr_x \<noteq> 3), inv_repair = (\<lambda>s. SetInt s wr_x 0)\<rparr>],
      b_events =
        [\<lparr>ev_name = ''a'', ev_writes = [0], ev_guard = Some (\<lambda>s. GetInt s wr_x = 3),
          ev_effect = (\<lambda>s. SetInt s wr_x 1)\<rparr>,
         \<lparr>ev_name = ''b'', ev_writes = [0], ev_guard = Some (\<lambda>s. GetInt s wr_x = 3),
          ev_effect = (\<lambda>s. SetInt s wr_x 2)\<rparr>],
      b_totalBits = 2, b_independent = [], b_allIndependent = True\<rparr>"

text \<open>
  Two booleans \<open>a\<close> and \<open>c\<close>; the invariant \<open>\<not> a\<close> declares the footprint
  \<open>{a}\<close>, and its repair also sets \<open>c\<close>.
\<close>

definition leak_a :: Var where
  "leak_a = \<lparr>var_name = ''a'', var_kind = BoolKind, var_index = 0, var_offset = 0, var_bits = 1,
              var_domain = 2, var_labels = [], var_min = 0\<rparr>"

definition leak_c :: Var where
  "leak_c = \<lparr>var_name = ''c'', var_kind = BoolKind, var_index = 1, var_offset = 1, var_bits = 1,
              var_domain = 2, var_labels = [], var_min = 0\<rparr>"

definition leak_builder :: Builder where
  "leak_builder =
     \<lparr>b_name = ''leak'', b_vars = [leak_a, leak_c],
      b_invariants =
        [\<lparr>inv_name = ''a_off'', inv_footprint = [0],
          inv_check = (\<lambda>s. \<not> GetBool s leak_a),
          inv_repair = (\<lambda>s. SetBool (SetBool s leak_a False) leak_c True)\<rparr>],
      b_events =
        [\<lparr>ev_name = ''set_a'', ev_writes = [0], ev_guard = None,
          ev_effect = (\<lambda>s. SetBool s leak_a True)\<rparr>],
      b_totalBits = 2, b_independent = [], b_allIndependent = True\<rparr>"

text \<open>
  The same invariant and event in a declaration that has the variable \<open>a\<close> only: the
  handle \<open>c\<close> used by the repair belongs to another builder, and its bit lies outside
  this declaration's single bit.
\<close>

definition esc_builder :: Builder where
  "esc_builder =
     \<lparr>b_name = ''esc'', b_vars = [leak_a],
      b_invariants =
        [\<lparr>inv_name = ''a_off'', inv_footprint = [0],
          inv_check = (\<lambda>s. \<not> GetBool s leak_a),
          inv_repair = (\<lambda>s. SetBool (SetBool s leak_a False) leak_c True)\<rparr>],
      b_events =
        [\<lparr>ev_name = ''set_a'', ev_writes = [0], ev_guard = None,
          ev_effect = (\<lambda>s. SetBool s leak_a True)\<rparr>],
      b_totalBits = 1, b_independent = [], b_allIndependent = True\<rparr>"

text \<open>
  A counter at the top of the machine integers: \<open>x\<close> in \<open>[2^63 - 3, 2^63 - 1]\<close>,
  as \<^verbatim>\<open>Int("x", MaxInt64 - 2, MaxInt64)\<close> declares it, with the event \<open>x := x + 1\<close>.
\<close>

definition top_x :: Var where
  "top_x = \<lparr>var_name = ''x'', var_kind = IntKind, var_index = 0, var_offset = 0, var_bits = 2,
             var_domain = 3, var_labels = [], var_min = 2 ^ 63 - 3\<rparr>"

definition top_builder :: Builder where
  "top_builder =
     \<lparr>b_name = ''top'', b_vars = [top_x], b_invariants = [],
      b_events =
        [\<lparr>ev_name = ''inc'', ev_writes = [0], ev_guard = None,
          ev_effect = (\<lambda>s. SetInt s top_x (go_int (GetInt s top_x + 1)))\<rparr>],
      b_totalBits = 2, b_independent = [], b_allIndependent = True\<rparr>"

text \<open>
  The variable that \<^verbatim>\<open>Int("v", 0, MaxInt64)\<close> declares: the size \<open>2^63\<close> of its
  range wraps to \<open>-2^63\<close>, for which \<^verbatim>\<open>bitsNeeded\<close> is 0.
\<close>

definition big_v :: Var where
  "big_v = \<lparr>var_name = ''v'', var_kind = IntKind, var_index = 0, var_offset = 0, var_bits = 0,
             var_domain = - (2 ^ 63), var_labels = [], var_min = 0\<rparr>"

definition big_builder :: Builder where
  "big_builder =
     \<lparr>b_name = ''big'', b_vars = [big_v], b_invariants = [], b_events = [],
      b_totalBits = 0, b_independent = [], b_allIndependent = True\<rparr>"

text \<open>The same invariant as it is declared through the fluent interface.\<close>

definition leak_decl :: InvariantBuilder where
  "leak_decl =
     Repair (Check (Over (Invariant ''a_off'') [leak_a]) (\<lambda>s. \<not> GetBool s leak_a))
       (\<lambda>s. SetBool (SetBool s leak_a False) leak_c True)"

section \<open>Words, fields and layouts\<close>

lemma bit_getRaw: "bit (getRaw s v) n \<longleftrightarrow> n < var_bits v \<and> bit s (var_offset v + n)"
  by (auto simp: getRaw_def bit_simps dest: bit_imp_le_length)

lemma bit_setRaw:
  "bit (setRaw s v x) n \<longleftrightarrow>
     (if var_offset v \<le> n \<and> n < var_offset v + var_bits v
      then n < 64 \<and> bit x (n - var_offset v) else bit s n)"
  by (auto simp: setRaw_def bit_simps dest: bit_imp_le_length)

lemma getRaw_setRaw_same:
  "var_offset v + var_bits v \<le> 64 \<Longrightarrow> getRaw (setRaw s v x) v = x AND mask (var_bits v)"
  by (rule bit_eqI) (auto simp: bit_getRaw bit_setRaw bit_simps)

lemma getRaw_setRaw_other:
  "var_offset u + var_bits u \<le> var_offset v \<or> var_offset v + var_bits v \<le> var_offset u
   \<Longrightarrow> getRaw (setRaw s v x) u = getRaw s u"
  by (rule bit_eqI) (auto simp: bit_getRaw bit_setRaw)

lemma unat_less_iff_take_bit: "unat (w :: 64 word) < 2 ^ T \<longleftrightarrow> take_bit T w = w"
  by (metis take_bit_nat_eq_self_iff unsigned_take_bit_eq word_eq_iff_unsigned)

lemma take_bit_iff_bits: "take_bit T (w :: 64 word) = w \<longleftrightarrow> (\<forall>n\<ge>T. \<not> bit w n)"
proof
  assume h: "take_bit T w = w"
  show "\<forall>n\<ge>T. \<not> bit w n"
  proof (intro allI impI)
    fix n assume "T \<le> n"
    have "bit w n = bit (take_bit T w) n" using h by simp
    then show "\<not> bit w n" using \<open>T \<le> n\<close> by (simp add: bit_take_bit_iff)
  qed
next
  assume "\<forall>n\<ge>T. \<not> bit w n"
  then show "take_bit T w = w"
    by (intro bit_eqI) (auto simp: bit_take_bit_iff not_le)
qed

lemma sint_small: "unat (w :: 64 word) < 2 ^ 63 \<Longrightarrow> sint w = int (unat w)"
proof -
  assume "unat w < 2 ^ 63"
  then have "int (unat w) < 2 ^ 63" by (simp only: of_nat_less_numeral_power_cancel_iff)
  then have "signed_take_bit 63 (int (unat w)) = int (unat w)"
  proof (intro signed_take_bit_int_eq_self)
    have "(0::int) \<le> int (unat w)" by simp
    moreover have "(0::int) < 2 ^ 63" by simp
    ultimately show "- (2 ^ 63) \<le> int (unat w)" by linarith
  qed
  then show ?thesis
    by (simp add: sint_uint)
qed

lemma go_int_id: "- (2 ^ 63) \<le> x \<Longrightarrow> x < 2 ^ 63 \<Longrightarrow> go_int x = x"
  unfolding go_int_def
  by (simp add: signed_of_int signed_take_bit_int_eq_self)

lemma unat_word_of_int_small: "0 \<le> x \<Longrightarrow> x < 2 ^ 64 \<Longrightarrow> unat (word_of_int x :: 64 word) = nat x"
  by (simp add: unat_eq_nat_uint uint_word_of_int take_bit_int_eq_self)

lemma bitsLoop_bound: "0 \<le> n \<Longrightarrow> b \<le> bitsLoop n b \<and> n < 2 ^ (bitsLoop n b - b)"
proof (induction n b rule: bitsLoop.induct)
  case (1 n b)
  show ?case
  proof (cases "n > 0")
    case True
    let ?r = "bitsLoop (n div 2) (b + 1)"
    have r: "bitsLoop n b = ?r" using True by (subst bitsLoop.simps) simp
    have ih: "b + 1 \<le> ?r \<and> n div 2 < 2 ^ (?r - (b + 1))"
      using "1.IH"[OF True] True by simp
    then have "n < 2 * 2 ^ (?r - (b + 1))" by linarith
    also have "(2::int) * 2 ^ (?r - (b + 1)) = 2 ^ (?r - b)"
      using ih by (metis Suc_diff_Suc Suc_eq_plus1 Suc_le_lessD power_Suc)
    finally show ?thesis using ih r by simp
  next
    case False
    with "1.prems" have "n = 0" by simp
    then show ?thesis by (subst bitsLoop.simps, subst (2) bitsLoop.simps) simp
  qed
qed

lemma bitsNeeded_bound: "1 \<le> n \<Longrightarrow> n \<le> 2 ^ bitsNeeded n"
proof (cases "n \<le> 1")
  case True
  assume "1 \<le> n"
  with True show ?thesis by (simp add: bitsNeeded_def)
next
  case False
  then have "n - 1 < 2 ^ (bitsLoop (n - 1) 0 - 0)"
    using bitsLoop_bound[of "n - 1" 0] by simp
  with False show ?thesis by (simp add: bitsNeeded_def)
qed

lemma wf_var_fits: "wf_var v \<Longrightarrow> var_domain v \<le> 2 ^ var_bits v"
  by (simp add: wf_var_def bitsNeeded_bound)

lemma layout_bounds:
  "layout_ok vs off \<Longrightarrow> v \<in> set vs \<Longrightarrow>
     off \<le> var_offset v \<and> var_offset v + var_bits v \<le> off + sum_list (map var_bits vs)"
proof (induction vs arbitrary: off)
  case Nil
  then show ?case by simp
next
  case (Cons w ws)
  show ?case
  proof (cases "v = w")
    case True
    with Cons.prems show ?thesis by simp
  next
    case False
    with Cons.prems have "v \<in> set ws" and "layout_ok ws (off + var_bits w)" by auto
    from Cons.IH[OF this(2) this(1)] show ?thesis by simp
  qed
qed

lemma layout_wf_var: "layout_ok vs off \<Longrightarrow> v \<in> set vs \<Longrightarrow> wf_var v"
  by (induction vs arbitrary: off) auto

lemma layout_disjoint:
  "layout_ok vs off \<Longrightarrow> u \<in> set vs \<Longrightarrow> v \<in> set vs \<Longrightarrow>
     u = v \<or> var_offset u + var_bits u \<le> var_offset v \<or> var_offset v + var_bits v \<le> var_offset u"
proof (induction vs arbitrary: off)
  case Nil
  then show ?case by simp
next
  case (Cons w ws)
  from Cons.prems have lo: "layout_ok ws (off + var_bits w)" and w: "var_offset w = off" by auto
  consider "u = w" "v = w" | "u = w" "v \<in> set ws" | "u \<in> set ws" "v = w" | "u \<in> set ws" "v \<in> set ws"
    using Cons.prems by auto
  then show ?case
  proof cases
    case 1 then show ?thesis by simp
  next
    case 2 then show ?thesis using layout_bounds[OF lo, of v] w by auto
  next
    case 3 then show ?thesis using layout_bounds[OF lo, of u] w by auto
  next
    case 4 then show ?thesis using Cons.IH[OF lo] by blast
  qed
qed

lemma isValidEncodingLoop_iff:
  "isValidEncodingLoop vs s \<longleftrightarrow> (\<forall>v\<in>set vs. sint (getRaw s v) < var_domain v)"
  by (induction vs) (auto simp: getRaw_def Let_def)

section \<open>The setters keep a state in-domain\<close>

lemma raw_fits:
  assumes "wf_var v" "var_bits v \<le> 63" "int (unat (x :: 64 word)) < var_domain v"
  shows "x AND mask (var_bits v) = x" and "sint x = int (unat x)"
proof -
  have d: "var_domain v \<le> 2 ^ var_bits v" using assms(1) by (rule wf_var_fits)
  then have "int (unat x) < 2 ^ var_bits v" using assms(3) by linarith
  then have lt: "unat x < 2 ^ var_bits v" by (simp only: of_nat_less_numeral_power_cancel_iff)
  then have "take_bit (var_bits v) x = x" by (simp only: unat_less_iff_take_bit)
  then show "x AND mask (var_bits v) = x" by (simp add: take_bit_eq_mask)
  have "(2::nat) ^ var_bits v \<le> 2 ^ 63" using assms(2) by (intro power_increasing) auto
  with lt have "unat x < 2 ^ 63" by linarith
  then show "sint x = int (unat x)" by (rule sint_small)
qed

lemma setRaw_in_range:
  assumes "unat s < 2 ^ T" "var_offset v + var_bits v \<le> T"
  shows "unat (setRaw s v x) < 2 ^ T"
proof -
  have "\<forall>n\<ge>T. \<not> bit s n" using assms(1) by (simp only: unat_less_iff_take_bit take_bit_iff_bits)
  then have "\<forall>n\<ge>T. \<not> bit (setRaw s v x) n" using assms(2) by (auto simp: bit_setRaw)
  then show ?thesis by (simp only: unat_less_iff_take_bit take_bit_iff_bits)
qed

lemma bitsLoop_le: "0 \<le> n \<Longrightarrow> n < 2 ^ k \<Longrightarrow> bitsLoop n b \<le> b + k"
proof (induction n b arbitrary: k rule: bitsLoop.induct)
  case (1 n b)
  show ?case
  proof (cases "n > 0")
    case True
    have "k \<noteq> 0" using True "1.prems"(2) by (cases k) auto
    then obtain k' where k: "k = Suc k'" by (cases k) auto
    have d: "n div 2 < 2 ^ k'" using "1.prems"(2) k by auto
    have "0 \<le> n div 2" using True by simp
    from "1.IH"[OF True this d] have "bitsLoop (n div 2) (b + 1) \<le> b + 1 + k'" .
    then show ?thesis using True k by (subst bitsLoop.simps) simp
  next
    case False
    then show ?thesis by (subst bitsLoop.simps) simp
  qed
qed

lemma bitsNeeded_le: "n < 2 ^ k \<Longrightarrow> bitsNeeded n \<le> k"
proof (cases "n \<le> 1")
  case True
  then show ?thesis by (simp add: bitsNeeded_def)
next
  case False
  assume "n < 2 ^ k"
  then have "n - 1 < 2 ^ k" by simp
  moreover have "0 \<le> n - 1" using False by simp
  ultimately have "bitsLoop (n - 1) 0 \<le> 0 + k" by (intro bitsLoop_le)
  then show ?thesis using False by (simp add: bitsNeeded_def)
qed

lemma builder_var_facts:
  assumes "wf_builder b" "b_totalBits b \<le> 63" "v \<in> set (b_vars b)"
  shows "wf_var v" "var_bits v \<le> 63" "var_offset v + var_bits v \<le> 64" "var_domain v \<le> 2 ^ 63"
    "var_offset v + var_bits v \<le> b_totalBits b"
proof -
  have lo: "layout_ok (b_vars b) 0" and tot: "b_totalBits b = sum_list (map var_bits (b_vars b))"
    using assms(1) by (auto simp: wf_builder_def)
  show wv: "wf_var v" using layout_wf_var[OF lo assms(3)] .
  show bv: "var_offset v + var_bits v \<le> b_totalBits b"
    using layout_bounds[OF lo assms(3)] tot by simp
  then show b63: "var_bits v \<le> 63" and "var_offset v + var_bits v \<le> 64" using assms(2) by linarith+
  have "(2::int) ^ var_bits v \<le> 2 ^ 63" using b63 by (intro power_increasing) auto
  then show "var_domain v \<le> 2 ^ 63" using wf_var_fits[OF wv] by linarith
qed

text \<open>
  The same facts for a state that fills the packed word: when the ranges fit, no
  variable is wider than 63 bits, so 64 bits in total are enough.
\<close>

lemma var_facts:
  assumes "wf_builder b" "ranges_fit b" "b_totalBits b \<le> 64" "v \<in> set (b_vars b)"
  shows "wf_var v" "var_bits v \<le> 63" "var_offset v + var_bits v \<le> 64" "var_domain v \<le> 2 ^ 63"
    "var_offset v + var_bits v \<le> b_totalBits b" "fits_int64 v"
proof -
  have lo: "layout_ok (b_vars b) 0" and tot: "b_totalBits b = sum_list (map var_bits (b_vars b))"
    using assms(1) by (auto simp: wf_builder_def)
  show wv: "wf_var v" using layout_wf_var[OF lo assms(4)] .
  show fv: "fits_int64 v" using assms(2,4) by (simp add: ranges_fit_def list_all_iff)
  show bv: "var_offset v + var_bits v \<le> b_totalBits b"
    using layout_bounds[OF lo assms(4)] tot by simp
  then show "var_offset v + var_bits v \<le> 64" using assms(3) by linarith
  have d: "var_domain v < 2 ^ 63" using fv by (simp add: fits_int64_def)
  then show "var_domain v \<le> 2 ^ 63" by simp
  have "bitsNeeded (var_domain v) \<le> 63" using d by (rule bitsNeeded_le)
  then show "var_bits v \<le> 63" using wv by (simp add: wf_var_def)
qed

lemma setRaw_in_domain:
  assumes wf: "wf_builder b" and tb: "b_totalBits b \<le> 64" and b63: "var_bits v \<le> 63"
    and v: "v \<in> set (b_vars b)" and s: "in_domain b s" and x: "int (unat x) < var_domain v"
  shows "in_domain b (setRaw s v x)"
proof -
  have lo: "layout_ok (b_vars b) 0" and tot: "b_totalBits b = sum_list (map var_bits (b_vars b))"
    using wf by (auto simp: wf_builder_def)
  have bv: "var_offset v + var_bits v \<le> b_totalBits b"
    using layout_bounds[OF lo v] tot by simp
  have wv: "wf_var v" using layout_wf_var[OF lo v] .
  have rng: "unat (setRaw s v x) < 2 ^ b_totalBits b"
    using s bv by (auto simp: in_domain_def intro: setRaw_in_range)
  have "sint (getRaw (setRaw s v x) u) < var_domain u" if u: "u \<in> set (b_vars b)" for u
  proof (cases "u = v")
    case True
    have "getRaw (setRaw s v x) v = x AND mask (var_bits v)"
      using bv tb by (intro getRaw_setRaw_same) linarith
    then show ?thesis using raw_fits[OF wv b63 x] x True by simp
  next
    case False
    then have "getRaw (setRaw s v x) u = getRaw s u"
      using layout_disjoint[OF lo u v] by (intro getRaw_setRaw_other) auto
    then show ?thesis using s u by (auto simp: in_domain_def isValidEncoding_def isValidEncodingLoop_iff)
  qed
  then show ?thesis using rng by (auto simp: in_domain_def isValidEncoding_def isValidEncodingLoop_iff)
qed

lemma SetInt_raw:
  assumes "1 \<le> var_domain v" "fits_int64 v"
  shows "\<exists>r. SetInt s v x = setRaw s v r \<and>
           int (unat r) = (if x < var_min v then 0 else if x > var_min v + var_domain v - 1 then var_domain v - 1 else x - var_min v)"
proof -
  define val2 where "val2 = (if x < var_min v then var_min v else if x > var_min v + var_domain v - 1 then var_min v + var_domain v - 1 else x)"
  have lo: "- (2 ^ 63) \<le> var_min v + var_domain v - 1" and hi: "var_min v + var_domain v - 1 < 2 ^ 63"
    and d: "var_domain v < 2 ^ 63"
    using assms by (auto simp: fits_int64_def)
  have mx: "go_int (var_min v + var_domain v - 1) = var_min v + var_domain v - 1"
    using lo hi by (rule go_int_id)
  have eq: "SetInt s v x = setRaw s v (word_of_int (val2 - var_min v))"
    using assms(1) unfolding SetInt_def Let_def mx val2_def by auto
  have r0: "0 \<le> val2 - var_min v" and r1: "val2 - var_min v < var_domain v"
    using assms(1) by (auto simp: val2_def)
  have "(2::int) ^ 63 < 2 ^ 64" by simp
  then have "val2 - var_min v < 2 ^ 64" using r1 d by linarith
  then have "unat (word_of_int (val2 - var_min v) :: 64 word) = nat (val2 - var_min v)"
    using r0 by (intro unat_word_of_int_small)
  then have "int (unat (word_of_int (val2 - var_min v) :: 64 word)) = val2 - var_min v"
    using r0 by simp
  then show ?thesis using eq assms(1) by (intro exI[of _ "word_of_int (val2 - var_min v)"]) (auto simp: val2_def)
qed

lemma SetInt_in_domain:
  assumes "wf_builder b" "ranges_fit b" "b_totalBits b \<le> 64" "v \<in> set (b_vars b)" "in_domain b s"
  shows "in_domain b (SetInt s v x)"
proof -
  note f = var_facts[OF assms(1-4)]
  have d1: "1 \<le> var_domain v" using f(1) by (simp add: wf_var_def)
  obtain r where r: "SetInt s v x = setRaw s v r"
    "int (unat r) = (if x < var_min v then 0 else if x > var_min v + var_domain v - 1 then var_domain v - 1 else x - var_min v)"
    using SetInt_raw[OF d1 f(6)] by blast
  have "int (unat r) < var_domain v" using r(2) d1 by (auto split: if_splits)
  then show ?thesis using r(1) setRaw_in_domain[OF assms(1,3) f(2) assms(4,5)] by simp
qed

lemma setRaw_zero_bits: "var_bits v = 0 \<Longrightarrow> setRaw s v x = s"
  by (simp add: setRaw_def)

lemma SetBool_in_domain:
  assumes "wf_builder b" "ranges_fit b" "b_totalBits b \<le> 64" "v \<in> set (b_vars b)" "in_domain b s"
  shows "in_domain b (SetBool s v bv)"
proof (cases "var_domain v = 1")
  case True
  then have "var_bits v = 0" using var_facts(1)[OF assms(1-4)]
    by (simp add: wf_var_def bitsNeeded_def)
  then show ?thesis using assms(5) by (simp add: SetBool_def setRaw_zero_bits)
next
  case False
  note f = var_facts[OF assms(1-4)]
  from False have d: "2 \<le> var_domain v" using f(1) by (simp add: wf_var_def)
  have "in_domain b (setRaw s v 1)" "in_domain b (setRaw s v 0)"
    using d by (auto intro!: setRaw_in_domain[OF assms(1,3) f(2) assms(4,5)])
  then show ?thesis by (simp add: SetBool_def)
qed

lemma enumIndexFrom_bound: "enumIndexFrom ls val i = Some k \<Longrightarrow> i \<le> k \<and> k < i + length ls"
proof (induction ls arbitrary: i)
  case Nil
  then show ?case by simp
next
  case (Cons a ls)
  show ?case
  proof (cases "a = val")
    case True
    with Cons.prems show ?thesis by simp
  next
    case False
    with Cons.prems have "enumIndexFrom ls val (i + 1) = Some k" by simp
    from Cons.IH[OF this] show ?thesis by simp
  qed
qed

lemma Set_in_domain:
  assumes "wf_builder b" "ranges_fit b" "b_totalBits b \<le> 64" "v \<in> set (b_vars b)" "in_domain b s"
    and "Set s v l = Inr s'"
  shows "in_domain b s'"
proof -
  note f = var_facts[OF assms(1-4)]
  from assms(6) obtain k where k: "enumIndexFrom (var_labels v) l 0 = Some k" "s' = setRaw s v (word_of_nat k)"
    by (auto simp: Set_def enumIndex_def split: option.splits sum.splits)
  have "int k < var_domain v" using enumIndexFrom_bound[OF k(1)] f(1) by (simp add: wf_var_def)
  moreover have "int k < 2 ^ 64 \<Longrightarrow> int (unat (word_of_nat k :: 64 word)) = int k"
    by (simp add: unat_of_nat take_bit_nat_eq_self)
  moreover have "(2::int) ^ 63 < 2 ^ 64" by simp
  ultimately have "int (unat (word_of_nat k :: 64 word)) < var_domain v" using f(4) by linarith
  then show ?thesis using k(2) setRaw_in_domain[OF assms(1,3) f(2) assms(4,5)] by simp
qed

lemma GetInt_SetInt:
  assumes "wf_builder b" "ranges_fit b" "b_totalBits b \<le> 64" "v \<in> set (b_vars b)"
  shows "GetInt (SetInt s v x) v =
           (if x < var_min v then var_min v
            else if x > var_min v + var_domain v - 1 then var_min v + var_domain v - 1 else x)"
    and "0 \<le> sint (getRaw (SetInt s v x) v)" and "sint (getRaw (SetInt s v x) v) < var_domain v"
proof -
  note f = var_facts[OF assms(1-4)]
  have d1: "1 \<le> var_domain v" using f(1) by (simp add: wf_var_def)
  have mn: "- (2 ^ 63) \<le> var_min v" and hi: "var_min v + var_domain v - 1 < 2 ^ 63"
    using f(6) by (auto simp: fits_int64_def)
  obtain r where r: "SetInt s v x = setRaw s v r"
    "int (unat r) = (if x < var_min v then 0 else if x > var_min v + var_domain v - 1 then var_domain v - 1 else x - var_min v)"
    using SetInt_raw[OF d1 f(6)] by blast
  have lt: "int (unat r) < var_domain v" using r(2) d1 by (auto split: if_splits)
  have g: "getRaw (SetInt s v x) v = r"
    using getRaw_setRaw_same[OF f(3)] raw_fits(1)[OF f(1) f(2) lt] r(1) by simp
  have si: "sint r = int (unat r)" using raw_fits(2)[OF f(1) f(2) lt] .
  have "0 \<le> int (unat r)" by simp
  then have "- (2 ^ 63) \<le> sint r + var_min v" and "sint r + var_min v < 2 ^ 63"
    using si lt mn hi by linarith+
  then have "go_int (sint r + var_min v) = sint r + var_min v" by (rule go_int_id)
  then have "GetInt (SetInt s v x) v = int (unat r) + var_min v"
    using g si by (simp add: GetInt_def)
  then show "GetInt (SetInt s v x) v =
           (if x < var_min v then var_min v
            else if x > var_min v + var_domain v - 1 then var_min v + var_domain v - 1 else x)"
    using r(2) by (auto split: if_splits)
  show "0 \<le> sint (getRaw (SetInt s v x) v)" using g si by simp
  show "sint (getRaw (SetInt s v x) v) < var_domain v" using g si lt by simp
qed

text \<open>On an in-domain state \<^verbatim>\<open>GetInt\<close> reads a value of the declared range.\<close>

lemma GetInt_in_range:
  assumes "wf_builder b" "ranges_fit b" "b_totalBits b \<le> 64" "v \<in> set (b_vars b)" "in_domain b t"
  shows "GetInt t v = sint (getRaw t v) + var_min v"
    and "var_min v \<le> GetInt t v" and "GetInt t v \<le> var_min v + var_domain v - 1"
proof -
  note f = var_facts[OF assms(1-4)]
  have mn: "- (2 ^ 63) \<le> var_min v" and hi: "var_min v + var_domain v - 1 < 2 ^ 63"
    using f(6) by (auto simp: fits_int64_def)
  have lt: "sint (getRaw t v) < var_domain v"
    using assms(4,5) by (auto simp: in_domain_def isValidEncoding_def isValidEncodingLoop_iff)
  have "unat (getRaw t v) < 2 ^ var_bits v" unfolding getRaw_def
    by (metis and.right_idem take_bit_eq_mask take_bit_nat_eq_self_iff unsigned_take_bit_eq)
  moreover have "(2::nat) ^ var_bits v \<le> 2 ^ 63" using f(2) by (intro power_increasing) auto
  ultimately have "unat (getRaw t v) < 2 ^ 63" by linarith
  then have si: "sint (getRaw t v) = int (unat (getRaw t v))" by (rule sint_small)
  have "0 \<le> int (unat (getRaw t v))" by simp
  then have ge: "0 \<le> sint (getRaw t v)" using si by linarith
  have "- (2 ^ 63) \<le> sint (getRaw t v) + var_min v" and "sint (getRaw t v) + var_min v < 2 ^ 63"
    using ge lt mn hi by linarith+
  then have "go_int (sint (getRaw t v) + var_min v) = sint (getRaw t v) + var_min v" by (rule go_int_id)
  then show e: "GetInt t v = sint (getRaw t v) + var_min v" by (simp add: GetInt_def)
  show "var_min v \<le> GetInt t v" using e ge by linarith
  show "GetInt t v \<le> var_min v + var_domain v - 1" using e lt by linarith
qed

section \<open>Clamping\<close>

lemma getRaw_cong_bits:
  "(\<And>n. var_offset v \<le> n \<Longrightarrow> n < var_offset v + var_bits v \<Longrightarrow> bit r n = bit s n)
     \<Longrightarrow> getRaw r v = getRaw s v"
  by (rule bit_eqI) (auto simp: bit_getRaw)

lemma clampLoop_spec:
  assumes "layout_ok vs off" "off + sum_list (map var_bits vs) \<le> 63"
  shows "(\<forall>n. n < off \<or> off + sum_list (map var_bits vs) \<le> n \<longrightarrow> bit (clampLoop vs s) n = bit s n)
         \<and> (\<forall>v\<in>set vs. getRaw (clampLoop vs s) v = clampRaw v (getRaw s v))"
  using assms
proof (induction vs arbitrary: off s)
  case Nil
  then show ?case by simp
next
  case (Cons w ws)
  let ?mx = "word_of_int (var_domain w - 1) :: 64 word"
  let ?s1 = "if getRaw s w > ?mx then setRaw s w ?mx else s"
  have cl: "clampLoop (w # ws) s = clampLoop ws ?s1" by (simp add: Let_def)
  from Cons.prems have lo: "layout_ok ws (off + var_bits w)" and w: "var_offset w = off" and wv: "wf_var w"
    and le: "(off + var_bits w) + sum_list (map var_bits ws) \<le> 63" by auto
  note ih = Cons.IH[OF lo le, of ?s1]
  have s1_out: "bit ?s1 n = bit s n" if "n < off \<or> off + var_bits w \<le> n" for n
    using that w by (auto simp: bit_setRaw)
  have b63: "var_bits w \<le> 63" and ob: "var_offset w + var_bits w \<le> 64" using le w by auto
  have d1: "1 \<le> var_domain w" using wv by (simp add: wf_var_def)
  have "var_domain w - 1 < 2 ^ var_bits w" using wf_var_fits[OF wv] by simp
  moreover have "(2::int) ^ var_bits w \<le> 2 ^ 63" using b63 by (intro power_increasing) auto
  moreover have "(2::int) ^ 63 < 2 ^ 64" by simp
  ultimately have "var_domain w - 1 < 2 ^ 64" by linarith
  then have umx: "unat ?mx = nat (var_domain w - 1)" using d1 by (intro unat_word_of_int_small) auto
  then have "int (unat ?mx) < var_domain w" using d1 by simp
  then have mxm: "?mx AND mask (var_bits w) = ?mx" by (rule raw_fits(1)[OF wv b63])
  have s1_w: "getRaw ?s1 w = clampRaw w (getRaw s w)"
    using getRaw_setRaw_same[OF ob, of s ?mx] mxm by (simp add: clampRaw_def)
  have part1: "bit (clampLoop (w # ws) s) n = bit s n"
    if "n < off \<or> off + sum_list (map var_bits (w # ws)) \<le> n" for n
  proof -
    have "bit (clampLoop ws ?s1) n = bit ?s1 n" using ih that by auto
    also have "\<dots> = bit s n" using that by (intro s1_out) auto
    finally show ?thesis using cl by simp
  qed
  have part2: "getRaw (clampLoop (w # ws) s) v = clampRaw v (getRaw s v)" if v: "v \<in> set (w # ws)" for v
  proof (cases "v \<in> set ws")
    case True
    have "off + var_bits w \<le> var_offset v" using layout_bounds[OF lo True] by simp
    then have "getRaw ?s1 v = getRaw s v"
      by (intro getRaw_cong_bits s1_out) auto
    then show ?thesis using ih True cl by simp
  next
    case False
    then have vw: "v = w" using v by simp
    have "getRaw (clampLoop ws ?s1) w = getRaw ?s1 w"
      using ih w by (intro getRaw_cong_bits) auto
    then show ?thesis using s1_w cl vw by simp
  qed
  show ?case using part1 part2 by blast
qed

lemma clampRaw_lt:
  assumes "wf_var v" "var_bits v \<le> 63"
  shows "sint (clampRaw v raw) < var_domain v" "0 \<le> sint (clampRaw v raw)"
proof -
  let ?mx = "word_of_int (var_domain v - 1) :: 64 word"
  have d1: "1 \<le> var_domain v" using assms(1) by (simp add: wf_var_def)
  have "var_domain v - 1 < 2 ^ var_bits v" using wf_var_fits[OF assms(1)] by simp
  moreover have "(2::int) ^ var_bits v \<le> 2 ^ 63" using assms(2) by (intro power_increasing) auto
  moreover have "(2::int) ^ 63 < 2 ^ 64" by simp
  ultimately have "var_domain v - 1 < 2 ^ 64" by linarith
  then have umx: "unat ?mx = nat (var_domain v - 1)" using d1 by (intro unat_word_of_int_small) auto
  have "clampRaw v raw \<le> ?mx" unfolding clampRaw_def by (simp only: not_less split: if_split) simp
  then have "unat (clampRaw v raw) \<le> unat ?mx" by (simp only: word_le_nat_alt)
  then have "unat (clampRaw v raw) \<le> nat (var_domain v - 1)" by (simp only: umx)
  then have lt: "int (unat (clampRaw v raw)) < var_domain v" using d1 by linarith
  from raw_fits(2)[OF assms lt] lt show "sint (clampRaw v raw) < var_domain v" "0 \<le> sint (clampRaw v raw)" by simp_all
qed

lemma clampState_valid:
  assumes "wf_builder b" "b_totalBits b \<le> 63"
  shows "isValidEncoding b (clampState b s)"
proof -
  have lo: "layout_ok (b_vars b) 0" and tot: "0 + sum_list (map var_bits (b_vars b)) \<le> 63"
    using assms by (auto simp: wf_builder_def)
  have "sint (getRaw (clampLoop (b_vars b) s) v) < var_domain v" if v: "v \<in> set (b_vars b)" for v
    using clampLoop_spec[OF lo tot, of s] v clampRaw_lt(1)[OF builder_var_facts(1,2)[OF assms v]]
    by simp
  then show ?thesis by (simp add: isValidEncoding_def clampState_def isValidEncodingLoop_iff)
qed

lemma clampState_field:
  assumes "wf_builder b" "b_totalBits b \<le> 63" "v \<in> set (b_vars b)"
  shows "getRaw (clampState b s) v = clampRaw v (getRaw s v)"
proof -
  have lo: "layout_ok (b_vars b) 0" and tot: "0 + sum_list (map var_bits (b_vars b)) \<le> 63"
    using assms by (auto simp: wf_builder_def)
  show ?thesis using clampLoop_spec[OF lo tot, of s] assms(3) by (simp add: clampState_def)
qed

section \<open>What a successful build says about the tables\<close>

lemma mapE_Inr:
  "mapE f xs = Inr ys \<Longrightarrow> length ys = length xs \<and> (\<forall>i<length xs. f (xs ! i) = Inr (ys ! i))"
proof (induction xs arbitrary: ys)
  case Nil
  then show ?case by simp
next
  case (Cons x xs)
  from Cons.prems obtain y ys' where y: "f x = Inr y" and ys': "mapE f xs = Inr ys'" and e: "ys = y # ys'"
    by (auto split: sum.splits)
  from Cons.IH[OF ys'] y e show ?case by (auto simp: nth_Cons split: nat.splits)
qed

lemma mapE_upt:
  "mapE f [0..<n] = Inr ys \<Longrightarrow> length ys = n \<and> (\<forall>i<n. f i = Inr (ys ! i))"
  using mapE_Inr[of f "[0..<n]" ys] by auto

lemma allHold_iff: "allHold invs s \<longleftrightarrow> (\<forall>iv\<in>set invs. inv_check iv s)"
  by (induction invs) auto

lemma firstRepair_cases:
  "firstRepair invs s = s \<or> (\<exists>iv\<in>set invs. firstRepair invs s = inv_repair iv s)"
  by (induction invs) auto

lemma applyFirstRepair_in_domain:
  "repairs_keep_domain b \<Longrightarrow> in_domain b s \<Longrightarrow> in_domain b (applyFirstRepair b s)"
  using firstRepair_cases[of "b_invariants b" s]
  by (auto simp: applyFirstRepair_def repairs_keep_domain_def)

lemma repairLoop_holds:
  "repairLoop b sc seen d s = Inr (t, d') \<Longrightarrow> allInvariantsHold b t"
proof (induction b sc seen d s rule: repairLoop.induct)
  case (1 b sc seen d s)
  show ?case
  proof (cases "allInvariantsHold b s")
    case True
    with "1.prems" show ?thesis by (subst (asm) repairLoop.simps) simp
  next
    case False
    with "1.prems" have c: "\<not> (applyFirstRepair b s \<in> seen \<or> int (d + 1) > sc)"
      and r: "repairLoop b sc (insert (applyFirstRepair b s) seen) (d + 1) (applyFirstRepair b s) = Inr (t, d')"
      by (subst (asm) repairLoop.simps, simp split: if_splits)+
    from "1.IH"[OF False c r] show ?thesis .
  qed
qed

lemma repairLoop_valid: "allInvariantsHold b s \<Longrightarrow> repairLoop b sc seen d s = Inr (s, d)"
  by (subst repairLoop.simps) simp

lemma repairLoop_in_domain:
  "repairs_keep_domain b \<Longrightarrow> in_domain b s \<Longrightarrow> repairLoop b sc seen d s = Inr (t, d') \<Longrightarrow> in_domain b t"
proof (induction b sc seen d s rule: repairLoop.induct)
  case (1 b sc seen d s)
  show ?case
  proof (cases "allInvariantsHold b s")
    case True
    then have "t = s" using "1.prems"(3) repairLoop_valid[OF True, of sc seen d] by simp
    then show ?thesis using "1.prems"(2) by simp
  next
    case False
    with "1.prems"(3) have c: "\<not> (applyFirstRepair b s \<in> seen \<or> int (d + 1) > sc)"
      and r: "repairLoop b sc (insert (applyFirstRepair b s) seen) (d + 1) (applyFirstRepair b s) = Inr (t, d')"
      by (subst (asm) repairLoop.simps, simp split: if_splits)+
    from "1.IH"[OF False c "1.prems"(1) applyFirstRepair_in_domain[OF "1.prems"(1,2)] r] show ?thesis .
  qed
qed

lemma repairLoop_fresh:
  "repairLoop b sc seen d s = Inr (t, d') \<Longrightarrow> \<not> allInvariantsHold b s \<Longrightarrow> t \<notin> seen"
proof (induction b sc seen d s rule: repairLoop.induct)
  case (1 b sc seen d s)
  let ?s' = "applyFirstRepair b s"
  from "1.prems" have c: "\<not> (?s' \<in> seen \<or> int (d + 1) > sc)"
    and r: "repairLoop b sc (insert ?s' seen) (d + 1) ?s' = Inr (t, d')"
    by (subst (asm) repairLoop.simps, simp split: if_splits)+
  show ?case
  proof (cases "allInvariantsHold b ?s'")
    case True
    then have "t = ?s'" using r repairLoop_valid[OF True, of sc "insert ?s' seen" "d + 1"] by simp
    then show ?thesis using c by simp
  next
    case False
    from "1.IH"[OF "1.prems"(2) c r False] show ?thesis by simp
  qed
qed

lemma validMask_nth: "i < P \<Longrightarrow> validMask b P ! i = isValidEncoding b (word_of_nat i)"
  by (simp add: validMask_def)

lemma computeNormalForms_Inr:
  assumes "computeNormalForms b P sc valid = Inr nf"
  shows "length nf = P"
    and "\<And>i. i < P \<Longrightarrow> \<not> valid ! i \<Longrightarrow> nf ! i = word_of_nat i"
    and "\<And>i. i < P \<Longrightarrow> valid ! i \<Longrightarrow> \<exists>d. repairLoop b sc {word_of_nat i} 0 (word_of_nat i) = Inr (nf ! i, d)"
proof -
  from assms obtain es where es: "mapE (nfEntry b sc valid) [0..<P] = Inr es" and nf: "nf = map fst es"
    by (auto simp: computeNormalForms_def Let_def split: sum.splits option.splits)
  note m = mapE_upt[OF es]
  show "length nf = P" using m nf by simp
  show "nf ! i = word_of_nat i" if "i < P" "\<not> valid ! i" for i
  proof -
    have "nfEntry b sc valid i = Inr (es ! i)" using m that by simp
    then have "es ! i = (word_of_nat i, 0)" using that by (simp add: nfEntry_def)
    then show ?thesis using nf m that by simp
  qed
  show "\<exists>d. repairLoop b sc {word_of_nat i} 0 (word_of_nat i) = Inr (nf ! i, d)" if "i < P" "valid ! i" for i
  proof -
    have "nfEntry b sc valid i = Inr (es ! i)" using m that by simp
    then have "repairLoop b sc {word_of_nat i} 0 (word_of_nat i) = Inr (es ! i)"
      using that by (simp add: nfEntry_def)
    then show ?thesis using nf m that by (cases "es ! i") auto
  qed
qed

lemma Build_Inr:
  assumes "Build b = Inr m"
  shows "b_totalBits b \<le> 20"
    and "computeNormalForms b (2 ^ b_totalBits b) (stateCountOf (b_vars b)) (validMask b (2 ^ b_totalBits b)) = Inr (m_nf m)"
    and "computeStepTables b (2 ^ b_totalBits b) (validMask b (2 ^ b_totalBits b)) (m_nf m) = Inr (m_step m)"
    and "verifyCC b (2 ^ b_totalBits b) (validMask b (2 ^ b_totalBits b)) (m_step m) = Inr ()"
    and "m_events m = eventsMap (b_events b)"
  using assms
  by (auto simp: Build_def Let_def bindE_def split: if_splits sum.splits)

lemma nf_in_domain_entry:
  assumes "Build b = Inr m" "in_domain b s"
  shows "unat s < length (m_nf m)"
    and "\<exists>d. repairLoop b (stateCountOf (b_vars b)) {s} 0 s = Inr (m_nf m ! unat s, d)"
proof -
  let ?P = "2 ^ b_totalBits b :: nat"
  note nf = computeNormalForms_Inr[OF Build_Inr(2)[OF assms(1)]]
  have lt: "unat s < ?P" using assms(2) by (simp add: in_domain_def)
  show "unat s < length (m_nf m)" using nf(1) lt by simp
  have "validMask b ?P ! unat s" using lt assms(2) by (simp add: validMask_nth in_domain_def)
  from nf(3)[OF lt this] show "\<exists>d. repairLoop b (stateCountOf (b_vars b)) {s} 0 s = Inr (m_nf m ! unat s, d)"
    by simp
qed

lemma nf_out_of_domain_entry:
  assumes "Build b = Inr m" "unat s < 2 ^ b_totalBits b" "\<not> isValidEncoding b s"
  shows "m_nf m ! unat s = s"
proof -
  let ?P = "2 ^ b_totalBits b :: nat"
  note nf = computeNormalForms_Inr[OF Build_Inr(2)[OF assms(1)]]
  have "\<not> validMask b ?P ! unat s" using assms by (simp add: validMask_nth)
  from nf(2)[OF assms(2) this] show ?thesis by simp
qed

lemma nf_valid_fixed:
  assumes "Build b = Inr m" "in_domain b s" "allInvariantsHold b s"
  shows "m_nf m ! unat s = s"
  using nf_in_domain_entry(2)[OF assms(1,2)] repairLoop_valid[OF assms(3)] by simp

lemma nf_lands:
  assumes "Build b = Inr m" "repairs_keep_domain b" "in_domain b s"
  shows "in_domain b (m_nf m ! unat s)" "allInvariantsHold b (m_nf m ! unat s)"
proof -
  obtain d where d: "repairLoop b (stateCountOf (b_vars b)) {s} 0 s = Inr (m_nf m ! unat s, d)"
    using nf_in_domain_entry(2)[OF assms(1,3)] by blast
  show "in_domain b (m_nf m ! unat s)" using repairLoop_in_domain[OF assms(2,3) d] .
  show "allInvariantsHold b (m_nf m ! unat s)" using repairLoop_holds[OF d] .
qed

lemma computeStepTables_Inr:
  assumes "computeStepTables b P valid nf = Inr step"
  shows "length step = length (b_events b)"
    and "\<And>ei. ei < length (b_events b) \<Longrightarrow> length (step ! ei) = P"
    and "\<And>ei i. ei < length (b_events b) \<Longrightarrow> i < P \<Longrightarrow>
           stepEntry b valid nf (b_events b ! ei) i = Inr (step ! ei ! i)"
proof -
  note m = mapE_Inr[OF assms[unfolded computeStepTables_def]]
  show "length step = length (b_events b)" using m by simp
  have row: "mapE (stepEntry b valid nf (b_events b ! ei)) [0..<P] = Inr (step ! ei)"
    if "ei < length (b_events b)" for ei using m that by simp
  show "length (step ! ei) = P" if "ei < length (b_events b)" for ei
    using mapE_upt[OF row[OF that]] by simp
  show "stepEntry b valid nf (b_events b ! ei) i = Inr (step ! ei ! i)"
    if "ei < length (b_events b)" "i < P" for ei i
    using mapE_upt[OF row[OF that(1)]] that(2) by simp
qed

lemma step_entry:
  assumes "Build b = Inr m" "ei < length (b_events b)" "in_domain b s"
  shows "unat (clampState b (applyEvent (b_events b ! ei) s)) < 2 ^ b_totalBits b"
    and "m_step m ! ei ! unat s = m_nf m ! unat (clampState b (applyEvent (b_events b ! ei) s))"
    and "ei < length (m_step m)" and "unat s < length (m_step m ! ei)"
proof -
  let ?P = "2 ^ b_totalBits b :: nat"
  note st = computeStepTables_Inr[OF Build_Inr(3)[OF assms(1)]]
  note nf = computeNormalForms_Inr[OF Build_Inr(2)[OF assms(1)]]
  have lt: "unat s < ?P" and v: "validMask b ?P ! unat s"
    using assms(3) by (simp_all add: in_domain_def validMask_nth)
  have e: "idx (m_nf m) (unat (clampState b (applyEvent (b_events b ! ei) s))) = Inr (m_step m ! ei ! unat s)"
    using st(3)[OF assms(2) lt] v by (simp add: stepEntry_def Let_def)
  then show "unat (clampState b (applyEvent (b_events b ! ei) s)) < 2 ^ b_totalBits b"
    using nf(1) by (auto simp: idx_def split: if_splits)
  show "m_step m ! ei ! unat s = m_nf m ! unat (clampState b (applyEvent (b_events b ! ei) s))"
    using e by (auto simp: idx_def split: if_splits)
  show "ei < length (m_step m)" using st(1) assms(2) by simp
  show "unat s < length (m_step m ! ei)" using st(2)[OF assms(2)] lt by simp
qed

lemma eventsMap_fold:
  "fold (\<lambda>(i, ev) m. m(ev_name ev \<mapsto> i)) (enumerate n evs) m0 name = Some k \<Longrightarrow>
     m0 name = Some k \<or> (n \<le> k \<and> k < n + length evs)"
proof (induction evs arbitrary: n m0)
  case Nil
  then show ?case by simp
next
  case (Cons ev evs)
  from Cons.prems have "fold (\<lambda>(i, ev) m. m(ev_name ev \<mapsto> i)) (enumerate (Suc n) evs) (m0(ev_name ev \<mapsto> n)) name = Some k"
    by (simp del: fun_upd_apply)
  from Cons.IH[OF this] show ?case by (auto split: if_splits)
qed

lemma eventsMap_bound: "eventsMap evs name = Some k \<Longrightarrow> k < length evs"
  using eventsMap_fold[of 0 evs Map.empty name k] by (simp add: eventsMap_def)

lemma eventsMap_Nil: "eventsMap [] = Map.empty"
  by (simp add: eventsMap_def)

lemma bruteLoop_Inr:
  "bruteLoop valid step i j ss = Inr u \<Longrightarrow> s \<in> set ss \<Longrightarrow> valid ! s \<Longrightarrow> bruteCheck step i j s = Inr ()"
  by (induction ss) (auto split: if_splits sum.splits)

lemma pairsLoop_Inr:
  "pairsLoop b P valid step ps = Inr u \<Longrightarrow> (i, j) \<in> set ps \<Longrightarrow>
     eventsDisjoint b i j = Inr True \<or>
     (eventsDisjoint b i j = Inr False \<and> bruteLoop valid step i j [0..<P] = Inr ())"
proof (induction ps)
  case Nil
  then show ?case by simp
next
  case (Cons p ps)
  obtain i' j' where p: "p = (i', j')" by (cases p)
  show ?case
  proof (cases "(i, j) = p")
    case True
    with Cons.prems(1) p show ?thesis by (auto split: sum.splits bool.splits)
  next
    case False
    then have "(i, j) \<in> set ps" using Cons.prems(2) by simp
    moreover have "pairsLoop b P valid step ps = Inr u"
      using Cons.prems(1) p by (auto split: sum.splits bool.splits)
    ultimately show ?thesis by (rule Cons.IH[rotated])
  qed
qed

lemma bruteCheck_Inr:
  assumes "bruteCheck step i j s = Inr ()"
  shows "i < length step" "j < length step" "s < length (step ! i)" "s < length (step ! j)"
    "unat (step ! i ! s) < length (step ! j)" "unat (step ! j ! s) < length (step ! i)"
    "step ! j ! unat (step ! i ! s) = step ! i ! unat (step ! j ! s)"
  using assms by (auto simp: bruteCheck_def bindE_def idx_def split: if_splits sum.splits)

lemma fold_insert_set: "fold insert xs A = set xs \<union> A"
  by (induction xs arbitrary: A) auto

lemma footprintLoop_eq:
  "footprintLoop invs W fp =
     fp \<union> \<Union> {set (inv_footprint iv) | iv. iv \<in> set invs \<and> set (inv_footprint iv) \<inter> W \<noteq> {}}"
proof (induction invs arbitrary: fp)
  case Nil
  then show ?case by simp
next
  case (Cons iv invs)
  show ?case
    by (simp add: Cons.IH Let_def list_ex_iff fold_insert_set) blast
qed

section \<open>The capped counter builds\<close>

lemma cap_wf: "wf_builder cap_builder"
  by code_simp

lemma cap_phase1:
  "computeNormalForms cap_builder 16 (stateCountOf (b_vars cap_builder)) (validMask cap_builder 16) = Inr cap_nf"
  by code_simp

lemma cap_phase2:
  "computeStepTables cap_builder 16 (validMask cap_builder 16) cap_nf = Inr cap_step"
  by code_simp

lemma cap_phase3:
  "verifyCC cap_builder 16 (validMask cap_builder 16) cap_step = Inr ()"
  by code_simp

lemma cap_bits: "b_totalBits cap_builder = 4"
  by (simp add: cap_builder_def)

lemma cap_count: "stateCountOf (b_vars cap_builder) = 10"
  by code_simp

lemma cap_build: "Build cap_builder = Inr cap_machine"
  unfolding Build_def
  by (simp add: cap_bits cap_count maxStateSpace_def cap_phase1[unfolded cap_count] cap_phase2 cap_phase3 bindE_def cap_machine_def Let_def)
    (simp add: cap_builder_def)

lemma cap_fits: "ranges_fit cap_builder"
  by code_simp

lemma cap_repairs: "repairs_keep_domain cap_builder"
proof -
  have v: "cap_x \<in> set (b_vars cap_builder)" by (simp add: cap_builder_def)
  have tb: "b_totalBits cap_builder \<le> 64" by (simp add: cap_bits)
  have "in_domain cap_builder (SetInt s cap_x 3)" if "in_domain cap_builder s" for s
    using SetInt_in_domain[OF cap_wf cap_fits tb v that] .
  then show ?thesis by (simp add: repairs_keep_domain_def cap_builder_def)
qed

section \<open>The declaration methods keep a builder well-formed\<close>

text \<open>
  Every builder reached from \<^verbatim>\<open>NewBuilder\<close> through the declaration methods is
  well-formed and has ranges that fit, as long as the bounds of an \<^verbatim>\<open>Int\<close> are
  machine integers and the size of its range does not wrap.
\<close>

lemma layout_ok_append:
  "layout_ok (vs @ [v]) off \<longleftrightarrow>
     layout_ok vs off \<and> var_offset v = off + sum_list (map var_bits vs) \<and> wf_var v"
  by (induction vs arbitrary: off) (auto simp: add.assoc)

lemma NewBuilder_wf: "wf_builder (NewBuilder name)"
  by (simp add: wf_builder_def NewBuilder_def)

lemma bitsNeeded_two: "bitsNeeded 2 = 1"
  by code_simp

lemma Bool_wf: "wf_builder b \<Longrightarrow> wf_builder (snd (Bool b name))"
  by (simp add: wf_builder_def Bool_def Let_def layout_ok_append wf_var_def bitsNeeded_two)

lemma Enum_wf: "wf_builder b \<Longrightarrow> Enum b name vals = Inr (v, b') \<Longrightarrow> wf_builder b'"
  by (auto simp: wf_builder_def Enum_def Let_def layout_ok_append wf_var_def split: if_splits)

lemma Int_var_wf:
  assumes "wf_builder b" "Int_var b name minv maxv = Inr (v, b')" "maxv - minv + 1 < 2 ^ 63"
  shows "wf_builder b'"
proof -
  have le: "minv \<le> maxv" using assms(2) by (auto simp: Int_var_def split: if_splits)
  have "(0::int) < 2 ^ 63" by simp
  then have "- (2 ^ 63) \<le> maxv - minv + 1" using le by linarith
  then have g: "go_int (maxv - minv + 1) = maxv - minv + 1" using assms(3) by (rule go_int_id)
  show ?thesis using assms(1,2) le g
    by (auto simp: wf_builder_def Int_var_def Let_def layout_ok_append wf_var_def split: if_splits)
qed

lemma eventIndexFrom_bound: "eventIndexFrom evs name i = Some k \<Longrightarrow> i \<le> k \<and> k < i + length evs"
proof (induction evs arbitrary: i)
  case Nil
  then show ?case by simp
next
  case (Cons ev evs)
  show ?case
  proof (cases "ev_name ev = name")
    case True
    with Cons.prems show ?thesis by simp
  next
    case False
    with Cons.prems have "eventIndexFrom evs name (i + 1) = Some k" by simp
    from Cons.IH[OF this] show ?thesis by simp
  qed
qed

lemma Independent_wf:
  assumes "wf_builder b" "Independent b e1 e2 = Inr b'"
  shows "wf_builder b'"
proof -
  from assms(2) obtain i j where i: "eventIndexFrom (b_events b) e1 0 = Some i"
    and j: "eventIndexFrom (b_events b) e2 0 = Some j"
    and b': "b' = b\<lparr>b_independent := b_independent b @ [(i, j)]\<rparr>"
    by (auto simp: Independent_def eventIndex_def split: sum.splits option.splits)
  show ?thesis using assms(1) eventIndexFrom_bound[OF i] eventIndexFrom_bound[OF j] b'
    by (simp add: wf_builder_def)
qed

lemma DeclaredIndependence_wf: "wf_builder b \<Longrightarrow> wf_builder (DeclaredIndependence b)"
  by (simp add: wf_builder_def DeclaredIndependence_def)

lemma InvariantBuilder_Add_wf: "wf_builder b \<Longrightarrow> InvariantBuilder_Add b ib = Inr b' \<Longrightarrow> wf_builder b'"
  by (auto simp: wf_builder_def InvariantBuilder_Add_def split: option.splits)

lemma EventBuilder_Add_wf: "wf_builder b \<Longrightarrow> EventBuilder_Add b eb = Inr b' \<Longrightarrow> wf_builder b'"
  by (fastforce simp: wf_builder_def EventBuilder_Add_def list_all_iff split: option.splits)

lemma NewBuilder_fits: "ranges_fit (NewBuilder name)"
  by (simp add: ranges_fit_def NewBuilder_def)

lemma Bool_fits: "ranges_fit b \<Longrightarrow> ranges_fit (snd (Bool b name))"
  by (simp add: ranges_fit_def Bool_def Let_def fits_int64_def)

lemma Enum_fits:
  "ranges_fit b \<Longrightarrow> Enum b name vals = Inr (v, b') \<Longrightarrow> int (length vals) < 2 ^ 63 \<Longrightarrow> ranges_fit b'"
  by (auto simp: ranges_fit_def Enum_def Let_def fits_int64_def split: if_splits)

lemma Int_var_fits:
  assumes "ranges_fit b" "Int_var b name minv maxv = Inr (v, b')"
    and "- (2 ^ 63) \<le> minv" "maxv < 2 ^ 63" "maxv - minv + 1 < 2 ^ 63"
  shows "ranges_fit b'"
proof -
  have le: "minv \<le> maxv" using assms(2) by (auto simp: Int_var_def split: if_splits)
  have "(0::int) < 2 ^ 63" by simp
  then have "- (2 ^ 63) \<le> maxv - minv + 1" using le by linarith
  then have g: "go_int (maxv - minv + 1) = maxv - minv + 1" using assms(5) by (rule go_int_id)
  show ?thesis using assms(1,2,3,4,5) le g
    by (auto simp: ranges_fit_def Int_var_def Let_def fits_int64_def split: if_splits)
qed

lemma Independent_fits: "ranges_fit b \<Longrightarrow> Independent b e1 e2 = Inr b' \<Longrightarrow> ranges_fit b'"
  by (auto simp: ranges_fit_def Independent_def split: sum.splits)

lemma DeclaredIndependence_fits: "ranges_fit b \<Longrightarrow> ranges_fit (DeclaredIndependence b)"
  by (simp add: ranges_fit_def DeclaredIndependence_def)

lemma InvariantBuilder_Add_fits:
  "ranges_fit b \<Longrightarrow> InvariantBuilder_Add b ib = Inr b' \<Longrightarrow> ranges_fit b'"
  by (auto simp: ranges_fit_def InvariantBuilder_Add_def split: option.splits)

lemma EventBuilder_Add_fits: "ranges_fit b \<Longrightarrow> EventBuilder_Add b eb = Inr b' \<Longrightarrow> ranges_fit b'"
  by (auto simp: ranges_fit_def EventBuilder_Add_def split: option.splits)

section \<open>Footprints are not read by the first two phases\<close>

lemma allHold_footprint: "allHold (map (\<lambda>iv. iv\<lparr>inv_footprint := f iv\<rparr>) invs) s = allHold invs s"
  by (induction invs) auto

lemma firstRepair_footprint:
  "firstRepair (map (\<lambda>iv. iv\<lparr>inv_footprint := f iv\<rparr>) invs) s = firstRepair invs s"
  by (induction invs) auto

lemma repairLoop_footprint:
  "repairLoop (b\<lparr>b_invariants := map (\<lambda>iv. iv\<lparr>inv_footprint := f iv\<rparr>) (b_invariants b)\<rparr>) sc seen d s
     = repairLoop b sc seen d s"
proof (induction b sc seen d s rule: repairLoop.induct)
  case (1 b sc seen d s)
  let ?b' = "b\<lparr>b_invariants := map (\<lambda>iv. iv\<lparr>inv_footprint := f iv\<rparr>) (b_invariants b)\<rparr>"
  have h: "allInvariantsHold ?b' s = allInvariantsHold b s"
    by (simp add: allInvariantsHold_def allHold_footprint)
  have r: "applyFirstRepair ?b' s = applyFirstRepair b s"
    by (simp add: applyFirstRepair_def firstRepair_footprint)
  show ?case
  proof (cases "allInvariantsHold b s")
    case True
    then show ?thesis using h by (simp add: repairLoop_valid)
  next
    case False
    show ?thesis
    proof (cases "applyFirstRepair b s \<in> seen \<or> int (d + 1) > sc")
      case True
      then show ?thesis using False h r
        by (subst repairLoop.simps, subst (2) repairLoop.simps) auto
    next
      case c: False
      have "repairLoop ?b' sc seen d s
              = repairLoop ?b' sc (insert (applyFirstRepair b s) seen) (d + 1) (applyFirstRepair b s)"
        using False c h r by (subst repairLoop.simps) auto
      also have "\<dots> = repairLoop b sc (insert (applyFirstRepair b s) seen) (d + 1) (applyFirstRepair b s)"
        using "1.IH"[OF False c] .
      also have "\<dots> = repairLoop b sc seen d s"
        using False c by (subst (2) repairLoop.simps) auto
      finally show ?thesis .
    qed
  qed
qed

lemma computeNormalForms_footprint:
  "computeNormalForms (b\<lparr>b_invariants := map (\<lambda>iv. iv\<lparr>inv_footprint := f iv\<rparr>) (b_invariants b)\<rparr>) P sc valid
     = computeNormalForms b P sc valid"
proof -
  let ?b' = "b\<lparr>b_invariants := map (\<lambda>iv. iv\<lparr>inv_footprint := f iv\<rparr>) (b_invariants b)\<rparr>"
  have e: "nfEntry ?b' sc valid = nfEntry b sc valid"
    by (rule ext) (simp add: nfEntry_def repairLoop_footprint)
  have h: "allInvariantsHold ?b' = allInvariantsHold b"
    by (rule ext) (simp add: allInvariantsHold_def allHold_footprint)
  show ?thesis by (simp only: computeNormalForms_def e h)
qed

lemma computeStepTables_footprint:
  "computeStepTables (b\<lparr>b_invariants := map (\<lambda>iv. iv\<lparr>inv_footprint := f iv\<rparr>) (b_invariants b)\<rparr>) P valid nf
     = computeStepTables b P valid nf"
proof -
  have "stepEntry (b\<lparr>b_invariants := map (\<lambda>iv. iv\<lparr>inv_footprint := f iv\<rparr>) (b_invariants b)\<rparr>) valid nf
          = stepEntry b valid nf"
    by (intro ext) (simp add: stepEntry_def clampState_def)
  then show ?thesis by (simp add: computeStepTables_def)
qed

section \<open>Further facts about the examples\<close>

lemma cap_events_inc_one: "m_events cap_machine ''inc_one'' = Some 0"
  by code_simp

lemma cap_events_inc_two: "m_events cap_machine ''inc_two'' = Some 1"
  by code_simp

lemma pairsToCheck_no_events:
  assumes "wf_builder b" "b_events b = []"
  shows "pairsToCheck b = []"
proof -
  have "b_independent b = []"
  proof (cases "b_independent b")
    case Nil then show ?thesis .
  next
    case (Cons p ps)
    then show ?thesis using assms by (cases p) (simp add: wf_builder_def)
  qed
  then show ?thesis by (simp add: pairsToCheck_def allPairs_def assms(2))
qed

lemma quiet_wf: "wf_builder quiet_builder"
  by code_simp

lemma quiet_phase1:
  "computeNormalForms quiet_builder (2 ^ b_totalBits quiet_builder) (stateCountOf (b_vars quiet_builder))
     (validMask quiet_builder (2 ^ b_totalBits quiet_builder)) = Inr cap_nf"
  by code_simp

section \<open>The claims\<close>

text \<open>
  Claim C1 says that after a successful build every pair selected for the CC check
  commutes on valid states, the pairs discharged by footprint disjointness included.
  The code at a concrete declaration: one variable \<open>x\<close>, no invariant, and two events
  that both write \<open>x\<close> (\<open>x := 1\<close> and \<open>x := 2\<close>), in all-pairs mode. The pair is
  selected, \<^verbatim>\<open>eventsDisjoint\<close> answers true although the write sets are equal,
  \<^verbatim>\<open>Build\<close> succeeds, and from the valid state 0 the two orders end in 2 and in 1.
\<close>

theorem disjointness_discharges_noncommuting_pair:
  "pairsToCheck writes_builder = [(0, 1)]
   \<and> ev_writes (b_events writes_builder ! 0) = [0] \<and> ev_writes (b_events writes_builder ! 1) = [0]
   \<and> eventsDisjoint writes_builder 0 1 = Inr True
   \<and> in_domain writes_builder 0 \<and> allInvariantsHold writes_builder 0
   \<and> (case Build writes_builder of Inl e \<Rightarrow> None | Inr m \<Rightarrow> Some (m_step m))
       = Some [[1, 1, 1, 1], [2, 2, 2, 2]]
   \<and> bindE (Build writes_builder) (\<lambda>m. bindE (Apply m 0 ''set_one'') (\<lambda>s. Apply m s ''set_two'')) = Inr 2
   \<and> bindE (Build writes_builder) (\<lambda>m. bindE (Apply m 0 ''set_two'') (\<lambda>s. Apply m s ''set_one'')) = Inr 1"
  by code_simp

theorem disjointness_discharges_noncommuting_pair_witness:
  "eventsDisjoint writes_builder 0 1 = Inr True
   \<and> bindE (Build writes_builder) (\<lambda>m. bindE (Apply m 0 ''set_one'') (\<lambda>s. Apply m s ''set_two'')) = Inr 2
   \<and> bindE (Build writes_builder) (\<lambda>m. bindE (Apply m 0 ''set_two'') (\<lambda>s. Apply m s ''set_one'')) = Inr 1"
  using disjointness_discharges_noncommuting_pair by blast

text \<open>
  Claim C2, as amended. The influence set computed by \<^verbatim>\<open>eventFootprint\<close> is exactly
  the union of the footprints of the invariants whose footprint overlaps the event's
  write set. A written variable belongs to it exactly when some invariant's footprint
  contains that variable; a variable written by the event and watched by no invariant
  is not in the set.
\<close>

theorem eventFootprint_is_union_of_overlapping_footprints:
  assumes "ei < length (b_events b)"
  shows "eventFootprint b ei =
           Inr (\<Union> {set (inv_footprint iv) | iv.
                     iv \<in> set (b_invariants b)
                     \<and> set (inv_footprint iv) \<inter> set (ev_writes (b_events b ! ei)) \<noteq> {}})
         \<and> (\<forall>F vi. eventFootprint b ei = Inr F \<and> vi \<in> set (ev_writes (b_events b ! ei)) \<longrightarrow>
               (vi \<in> F \<longleftrightarrow> (\<exists>iv \<in> set (b_invariants b). vi \<in> set (inv_footprint iv))))"
proof -
  let ?W = "set (ev_writes (b_events b ! ei))"
  let ?U = "\<Union> {set (inv_footprint iv) | iv. iv \<in> set (b_invariants b) \<and> set (inv_footprint iv) \<inter> ?W \<noteq> {}}"
  have e: "eventFootprint b ei = Inr ?U"
    using assms by (simp add: eventFootprint_def bindE_def idx_def footprintLoop_eq fold_insert_set)
  have "vi \<in> ?U \<longleftrightarrow> (\<exists>iv \<in> set (b_invariants b). vi \<in> set (inv_footprint iv))" if "vi \<in> ?W" for vi
    using that by auto
  with e show ?thesis by auto
qed

theorem eventFootprint_is_union_of_overlapping_footprints_witness:
  "(2 :: nat) < length (b_events cap_builder)
   \<and> ev_writes (b_events cap_builder ! 2) = [1]
   \<and> eventFootprint cap_builder 2 = Inr {}
   \<and> \<not> (\<exists>iv \<in> set (b_invariants cap_builder). 1 \<in> set (inv_footprint iv))"
proof -
  have l: "(2 :: nat) < length (b_events cap_builder)" by (simp add: cap_builder_def)
  have w: "ev_writes (b_events cap_builder ! 2) = [1]" by (simp add: cap_builder_def)
  have f: "eventFootprint cap_builder 2 = Inr {}" by code_simp
  have "1 \<in> set (ev_writes (b_events cap_builder ! 2))" using w by simp
  with eventFootprint_is_union_of_overlapping_footprints[OF l] f
  have "(1 \<in> ({} :: nat set)) = (\<exists>iv \<in> set (b_invariants cap_builder). 1 \<in> set (inv_footprint iv))"
    by blast
  then have "\<not> (\<exists>iv \<in> set (b_invariants cap_builder). 1 \<in> set (inv_footprint iv))" by simp
  with l w f show ?thesis by blast
qed

text \<open>
  Claim C2 as stated fails: the event \<open>set_one\<close> writes variable 0 and its influence
  set is empty.
\<close>

theorem written_variable_missing_from_footprint:
  "ev_writes (b_events writes_builder ! 0) = [0] \<and> eventFootprint writes_builder 0 = Inr {}"
  by code_simp

text \<open>
  Claim C3, as amended. In the exhaustive check of a pair that is not discharged by
  disjointness, only out-of-domain ids are skipped: when \<^verbatim>\<open>Build\<close> succeeds, the two
  step orders agree on every in-domain start state, whether or not the invariant checks
  hold there. A mismatch from an invariant-violating in-domain start state therefore
  makes \<^verbatim>\<open>Build\<close> fail.
\<close>

theorem brute_force_compares_every_in_domain_state:
  assumes "Build b = Inr m" and "(i, j) \<in> set (pairsToCheck b)"
    and "eventsDisjoint b i j = Inr False" and "in_domain b s"
  shows "bruteCheck (m_step m) i j (unat s) = Inr ()
         \<and> m_step m ! j ! unat (m_step m ! i ! unat s) = m_step m ! i ! unat (m_step m ! j ! unat s)"
proof -
  let ?P = "2 ^ b_totalBits b :: nat"
  have cc: "pairsLoop b ?P (validMask b ?P) (m_step m) (pairsToCheck b) = Inr ()"
    using Build_Inr(4)[OF assms(1)] by (simp add: verifyCC_def)
  have bl: "bruteLoop (validMask b ?P) (m_step m) i j [0..<?P] = Inr ()"
    using pairsLoop_Inr[OF cc assms(2)] assms(3) by simp
  have lt: "unat s < ?P" and v: "validMask b ?P ! unat s"
    using assms(4) by (simp_all add: in_domain_def validMask_nth)
  have bc: "bruteCheck (m_step m) i j (unat s) = Inr ()"
    using bruteLoop_Inr[OF bl _ v] lt by simp
  from bc bruteCheck_Inr(7)[OF bc] show ?thesis by blast
qed

theorem brute_force_compares_every_in_domain_state_witness:
  "Build cap_builder = Inr cap_machine \<and> (0, 1) \<in> set (pairsToCheck cap_builder)
   \<and> eventsDisjoint cap_builder 0 1 = Inr False \<and> in_domain cap_builder 4
   \<and> \<not> allInvariantsHold cap_builder 4
   \<and> m_step cap_machine ! 1 ! unat (m_step cap_machine ! 0 ! unat (4 :: 64 word))
       = m_step cap_machine ! 0 ! unat (m_step cap_machine ! 1 ! unat (4 :: 64 word))"
proof -
  have p: "(0, 1) \<in> set (pairsToCheck cap_builder)" by code_simp
  have e: "eventsDisjoint cap_builder 0 1 = Inr False" by code_simp
  have d: "in_domain cap_builder 4" by code_simp
  have n: "\<not> allInvariantsHold cap_builder 4" by code_simp
  from brute_force_compares_every_in_domain_state[OF cap_build p e d] cap_build p e d n
  show ?thesis by blast
qed

text \<open>
  Claim C3 as stated fails: here the two events commute from the valid states 0, 1 and
  2, the only mismatch is from the in-domain state 3 that violates the invariant, and
  \<^verbatim>\<open>Build\<close> fails with the CC error for that state.
\<close>

theorem invalid_start_state_fails_build:
  "computeNormalForms guarded_builder 4 4 (validMask guarded_builder 4) = Inr [0, 1, 2, 0]
   \<and> computeStepTables guarded_builder 4 (validMask guarded_builder 4) [0, 1, 2, 0]
       = Inr [[0, 1, 2, 1], [0, 1, 2, 2]]
   \<and> pairsToCheck guarded_builder = [(0, 1)]
   \<and> eventsDisjoint guarded_builder 0 1 = Inr False
   \<and> allInvariantsHold guarded_builder 0 \<and> bruteCheck [[0, 1, 2, 1], [0, 1, 2, 2]] 0 1 0 = Inr ()
   \<and> allInvariantsHold guarded_builder 1 \<and> bruteCheck [[0, 1, 2, 1], [0, 1, 2, 2]] 0 1 1 = Inr ()
   \<and> allInvariantsHold guarded_builder 2 \<and> bruteCheck [[0, 1, 2, 1], [0, 1, 2, 2]] 0 1 2 = Inr ()
   \<and> in_domain guarded_builder 3 \<and> \<not> allInvariantsHold guarded_builder 3
   \<and> Build guarded_builder = Inl (CCFailed 0 1 3 1 2)"
proof -
  have tables:
    "computeNormalForms guarded_builder 4 4 (validMask guarded_builder 4) = Inr [0, 1, 2, 0]
     \<and> computeStepTables guarded_builder 4 (validMask guarded_builder 4) [0, 1, 2, 0]
         = Inr [[0, 1, 2, 1], [0, 1, 2, 2]]
     \<and> pairsToCheck guarded_builder = [(0, 1)]
     \<and> eventsDisjoint guarded_builder 0 1 = Inr False"
    by code_simp
  have valid:
    "allInvariantsHold guarded_builder 0 \<and> bruteCheck [[0, 1, 2, 1], [0, 1, 2, 2]] 0 1 0 = Inr ()
     \<and> allInvariantsHold guarded_builder 1 \<and> bruteCheck [[0, 1, 2, 1], [0, 1, 2, 2]] 0 1 1 = Inr ()
     \<and> allInvariantsHold guarded_builder 2 \<and> bruteCheck [[0, 1, 2, 1], [0, 1, 2, 2]] 0 1 2 = Inr ()
     \<and> in_domain guarded_builder 3 \<and> \<not> allInvariantsHold guarded_builder 3"
    by code_simp
  have "(case Build guarded_builder of Inl e \<Rightarrow> Some e | Inr m \<Rightarrow> None) = Some (CCFailed 0 1 3 1 2)"
    by code_simp
  then have "Build guarded_builder = Inl (CCFailed 0 1 3 1 2)"
    by (cases "Build guarded_builder") simp_all
  with tables valid show ?thesis by blast
qed

text \<open>
  Claim C4, as amended. When \<^verbatim>\<open>Build\<close> succeeds and every repair keeps in-domain
  states in-domain, as every repair written with the setters on the builder's own
  variables does, applying a known event to an in-domain state returns a state that is
  in-domain, satisfies every invariant check, and of which \<^verbatim>\<open>IsValid\<close> is true. This
  holds from every in-domain start state, so in particular from the valid ones. The
  condition on the repairs is needed because the verifier clamps what an effect
  returns, not what a repair returns.
\<close>

theorem step_lands_valid:
  assumes "Build b = Inr m" and "wf_builder b" and "repairs_keep_domain b"
    and "in_domain b s" and "m_events m name = Some ei"
  shows "\<exists>t. Apply m s name = Inr t \<and> in_domain b t \<and> allInvariantsHold b t
             \<and> IsValid m t = Inr True"
proof -
  have ei: "ei < length (b_events b)"
    using assms(5) Build_Inr(5)[OF assms(1)] eventsMap_bound by simp
  let ?a = "clampState b (applyEvent (b_events b ! ei) s)"
  let ?t = "m_nf m ! unat ?a"
  note st = step_entry[OF assms(1) ei assms(4)]
  have tb: "b_totalBits b \<le> 63" using Build_Inr(1)[OF assms(1)] by linarith
  have ad: "in_domain b ?a" using st(1) clampState_valid[OF assms(2) tb] by (simp add: in_domain_def)
  have td: "in_domain b ?t" and th: "allInvariantsHold b ?t" using nf_lands[OF assms(1,3) ad] .
  have ap: "Apply m s name = Inr ?t"
    using assms(5) st by (simp add: Apply_def bindE_def idx_def)
  have "IsValid m ?t = Inr True"
    using nf_valid_fixed[OF assms(1) td th] nf_in_domain_entry(1)[OF assms(1) td]
    by (simp add: IsValid_def bindE_def idx_def)
  with ap td th show ?thesis by blast
qed

theorem step_lands_valid_witness:
  "Build cap_builder = Inr cap_machine \<and> wf_builder cap_builder \<and> repairs_keep_domain cap_builder
   \<and> in_domain cap_builder 3 \<and> m_events cap_machine ''inc_one'' = Some 0
   \<and> Apply cap_machine 3 ''inc_one'' = Inr 3 \<and> in_domain cap_builder 3
   \<and> allInvariantsHold cap_builder 3 \<and> IsValid cap_machine 3 = Inr True"
proof -
  have d: "in_domain cap_builder 3" by code_simp
  have a: "Apply cap_machine 3 ''inc_one'' = Inr 3" by code_simp
  from step_lands_valid[OF cap_build cap_wf cap_repairs d cap_events_inc_one] a
  have "allInvariantsHold cap_builder 3 \<and> IsValid cap_machine 3 = Inr True" by auto
  with cap_build cap_wf cap_repairs d cap_events_inc_one a show ?thesis by blast
qed

text \<open>
  Claim C4 as stated fails: the declaration has the single boolean \<open>a\<close>, and the
  repair of its invariant also sets a bit that belongs to no variable of the
  declaration. \<^verbatim>\<open>Build\<close> succeeds with the normal forms \<open>[0, 2]\<close> and the step row
  \<open>[2, 2]\<close>; from the valid in-domain state 0 the event \<open>set_a\<close> returns the id 2,
  which is outside the address space, and \<^verbatim>\<open>IsValid\<close> of it reads the table out of
  range.
\<close>

theorem step_leaves_domain_after_foreign_repair:
  "wf_builder esc_builder
   \<and> (case Build esc_builder of Inl e \<Rightarrow> None | Inr m \<Rightarrow> Some (m_nf m, m_step m))
       = Some ([0, 2], [[2, 2]])
   \<and> in_domain esc_builder 0 \<and> allInvariantsHold esc_builder 0
   \<and> bindE (Build esc_builder) (\<lambda>m. Apply m 0 ''set_a'') = Inr 2
   \<and> \<not> in_domain esc_builder 2
   \<and> bindE (Build esc_builder) (\<lambda>m. IsValid m 2) = Inl IndexOutOfRange"
  by code_simp

text \<open>
  Claim C5, as amended. When \<^verbatim>\<open>Build\<close> succeeds and every repair keeps in-domain
  states in-domain, as every repair written with the setters on the builder's own
  variables does, normalization is idempotent on the whole padded address space: for
  every id \<open>s\<close> below \<open>2 ^ totalBits\<close>, in-domain or not, \<open>NF[s]\<close> is some \<open>t\<close>
  with \<open>NF[t] = t\<close>.
\<close>

theorem normalization_idempotent:
  assumes "Build b = Inr m" and "repairs_keep_domain b" and "unat s < 2 ^ b_totalBits b"
  shows "\<exists>t. Normalize m s = Inr t \<and> Normalize m t = Inr t"
proof (cases "isValidEncoding b s")
  case True
  then have d: "in_domain b s" using assms(3) by (simp add: in_domain_def)
  let ?t = "m_nf m ! unat s"
  have td: "in_domain b ?t" and th: "allInvariantsHold b ?t" using nf_lands[OF assms(1,2) d] .
  have "Normalize m s = Inr ?t" using nf_in_domain_entry(1)[OF assms(1) d] by (simp add: Normalize_def idx_def)
  moreover have "Normalize m ?t = Inr ?t"
    using nf_valid_fixed[OF assms(1) td th] nf_in_domain_entry(1)[OF assms(1) td]
    by (simp add: Normalize_def idx_def)
  ultimately show ?thesis by blast
next
  case False
  have len: "length (m_nf m) = 2 ^ b_totalBits b"
    using computeNormalForms_Inr(1)[OF Build_Inr(2)[OF assms(1)]] .
  have "Normalize m s = Inr s"
    using nf_out_of_domain_entry[OF assms(1,3) False] len assms(3) by (simp add: Normalize_def idx_def)
  then show ?thesis by blast
qed

theorem normalization_idempotent_witness:
  "Build cap_builder = Inr cap_machine \<and> repairs_keep_domain cap_builder
   \<and> unat (4 :: 64 word) < 2 ^ b_totalBits cap_builder
   \<and> Normalize cap_machine 4 = Inr 3 \<and> Normalize cap_machine 3 = Inr 3"
proof -
  have r: "unat (4 :: 64 word) < 2 ^ b_totalBits cap_builder" by (simp add: cap_bits)
  have n4: "Normalize cap_machine 4 = Inr 3" by code_simp
  from normalization_idempotent[OF cap_build cap_repairs r] n4
  have "Normalize cap_machine 3 = Inr 3" by auto
  with cap_build cap_repairs r n4 show ?thesis by blast
qed

text \<open>
  Claim C5 as stated fails: in the declaration whose repair sets a bit outside the
  address space, \<^verbatim>\<open>Build\<close> succeeds, the normal form of the in-domain state 1 is 2,
  and the table has no entry for 2.
\<close>

theorem normal_form_outside_table:
  "(case Build esc_builder of Inl e \<Rightarrow> None | Inr m \<Rightarrow> Some (m_nf m)) = Some [0, 2]
   \<and> in_domain esc_builder 1
   \<and> bindE (Build esc_builder) (\<lambda>m. Normalize m 1) = Inr 2
   \<and> bindE (Build esc_builder) (\<lambda>m. Normalize m 2) = Inl IndexOutOfRange"
  by code_simp

text \<open>
  Claim C6. When \<^verbatim>\<open>Build\<close> succeeds, every in-domain state on which every invariant
  check holds is its own normal form: \<open>NF[s] = s\<close>, so \<^verbatim>\<open>Normalize\<close> returns it
  unchanged and \<^verbatim>\<open>IsValid\<close> is true of it. For every state, \<^verbatim>\<open>IsValid\<close> returns
  true exactly when \<open>NF[s.id] = s.id\<close>.
\<close>

theorem repair_identity_on_valid_states:
  assumes "Build b = Inr m" and "in_domain b s" and "allInvariantsHold b s"
  shows "Normalize m s = Inr s \<and> IsValid m s = Inr True
         \<and> (\<forall>s'. (IsValid m s' = Inr True) = (Normalize m s' = Inr s'))"
proof -
  have fixed: "m_nf m ! unat s = s" using nf_valid_fixed[OF assms] .
  have len: "unat s < length (m_nf m)" using nf_in_domain_entry(1)[OF assms(1,2)] .
  have n: "Normalize m s = Inr s" using fixed len by (simp add: Normalize_def idx_def)
  have agree: "(IsValid m s' = Inr True) = (Normalize m s' = Inr s')" for s'
    by (auto simp: IsValid_def Normalize_def bindE_def idx_def)
  from n agree show ?thesis by blast
qed

theorem repair_identity_on_valid_states_witness:
  "Build cap_builder = Inr cap_machine \<and> in_domain cap_builder 10 \<and> allInvariantsHold cap_builder 10
   \<and> Normalize cap_machine 10 = Inr 10 \<and> IsValid cap_machine 10 = Inr True"
proof -
  have d: "in_domain cap_builder 10" by code_simp
  have h: "allInvariantsHold cap_builder 10" by code_simp
  from repair_identity_on_valid_states[OF cap_build d h] cap_build d h show ?thesis by blast
qed

text \<open>
  Claim C7, as amended. In the step table of a successful build of a declaration whose
  ranges fit the 64-bit integer, the entry for an event and an in-domain state is the
  normal form of the clamped post-state, and the clamped post-state is in-domain. Clamping resets every field whose raw value exceeds
  \<open>domain - 1\<close> to \<open>domain - 1\<close> and leaves the other fields as they are. An
  effect that calls \<^verbatim>\<open>SetInt\<close> with a value above the maximum stores the maximum; so
  an effect \<open>x := x + k\<close> that overruns the declared range saturates at the top of the
  domain and does not wrap, as long as its own sum \<open>x + k\<close> does not overflow the
  64-bit integer.
\<close>

theorem effect_result_is_clamped:
  assumes "Build b = Inr m" and "wf_builder b" and "ranges_fit b" and "in_domain b s"
    and "m_events m name = Some ei"
  shows "Apply m s name = Normalize m (clampState b (applyEvent (b_events b ! ei) s))
         \<and> in_domain b (clampState b (applyEvent (b_events b ! ei) s))
         \<and> (\<forall>t. \<forall>v \<in> set (b_vars b).
               getRaw (clampState b t) v =
                 (if getRaw t v > word_of_int (var_domain v - 1)
                  then word_of_int (var_domain v - 1) else getRaw t v))
         \<and> (\<forall>t x. \<forall>v \<in> set (b_vars b).
               x > var_min v + var_domain v - 1 \<longrightarrow>
                 GetInt (SetInt t v x) v = var_min v + var_domain v - 1)
         \<and> (\<forall>t k. \<forall>v \<in> set (b_vars b).
               in_domain b t \<and> 0 \<le> k \<and> GetInt t v + k < 2 ^ 63 \<longrightarrow>
                 GetInt (SetInt t v (go_int (GetInt t v + k))) v
                   = min (GetInt t v + k) (var_min v + var_domain v - 1))"
proof -
  have ei: "ei < length (b_events b)"
    using assms(5) Build_Inr(5)[OF assms(1)] eventsMap_bound by simp
  let ?a = "clampState b (applyEvent (b_events b ! ei) s)"
  note st = step_entry[OF assms(1) ei assms(4)]
  have tb: "b_totalBits b \<le> 63" using Build_Inr(1)[OF assms(1)] by linarith
  have tb64: "b_totalBits b \<le> 64" using tb by linarith
  have len: "length (m_nf m) = 2 ^ b_totalBits b"
    using computeNormalForms_Inr(1)[OF Build_Inr(2)[OF assms(1)]] .
  have ad: "in_domain b ?a" using st(1) clampState_valid[OF assms(2) tb] by (simp add: in_domain_def)
  have ap: "Apply m s name = Normalize m ?a"
    using assms(5) st len by (simp add: Apply_def Normalize_def bindE_def idx_def)
  have fld: "getRaw (clampState b t) v =
                 (if getRaw t v > word_of_int (var_domain v - 1)
                  then word_of_int (var_domain v - 1) else getRaw t v)"
    if "v \<in> set (b_vars b)" for t v
    using clampState_field[OF assms(2) tb that, of t] unfolding clampRaw_def .
  have sat: "GetInt (SetInt t v x) v = var_min v + var_domain v - 1"
    if "v \<in> set (b_vars b)" "x > var_min v + var_domain v - 1" for t v x
  proof -
    have "1 \<le> var_domain v" using var_facts(1)[OF assms(2,3) tb64 that(1)] by (simp add: wf_var_def)
    then have "\<not> x < var_min v" using that(2) by linarith
    then show ?thesis using GetInt_SetInt(1)[OF assms(2,3) tb64 that(1), of t x] that(2) by simp
  qed
  have inc: "GetInt (SetInt t v (go_int (GetInt t v + k))) v
               = min (GetInt t v + k) (var_min v + var_domain v - 1)"
    if "v \<in> set (b_vars b)" "in_domain b t" "0 \<le> k" "GetInt t v + k < 2 ^ 63" for t k v
  proof -
    note g = GetInt_in_range[OF assms(2,3) tb64 that(1,2)]
    have "- (2 ^ 63) \<le> var_min v" using var_facts(6)[OF assms(2,3) tb64 that(1)]
      by (simp add: fits_int64_def)
    then have "- (2 ^ 63) \<le> GetInt t v + k" using g(2) that(3) by linarith
    then have e: "go_int (GetInt t v + k) = GetInt t v + k" using that(4) by (rule go_int_id)
    have "\<not> GetInt t v + k < var_min v" using g(2) that(3) by linarith
    then show ?thesis
      using GetInt_SetInt(1)[OF assms(2,3) tb64 that(1), of t "GetInt t v + k"] e
      by (simp add: min_def)
  qed
  from ap ad fld sat inc show ?thesis by blast
qed

theorem effect_result_is_clamped_witness:
  "Build cap_builder = Inr cap_machine \<and> wf_builder cap_builder \<and> ranges_fit cap_builder
   \<and> in_domain cap_builder 3 \<and> m_events cap_machine ''inc_two'' = Some 1
   \<and> applyEvent (b_events cap_builder ! 1) 3 = 4
   \<and> Apply cap_machine 3 ''inc_two'' = Normalize cap_machine (clampState cap_builder 4)
   \<and> getRaw (clampState cap_builder 7) cap_x = 4
   \<and> GetInt 3 cap_x = 3
   \<and> GetInt (SetInt 3 cap_x (go_int (GetInt 3 cap_x + 2))) cap_x = 4"
proof -
  have d: "in_domain cap_builder 3" by code_simp
  have e: "applyEvent (b_events cap_builder ! 1) 3 = 4" by code_simp
  have v: "cap_x \<in> set (b_vars cap_builder)" by (simp add: cap_builder_def)
  have c: "var_min cap_x = 0" "var_domain cap_x = 5" by (simp_all add: cap_x_def)
  have r7: "getRaw 7 cap_x = 7" by code_simp
  have g3: "GetInt 3 cap_x = 3" by code_simp
  note t = effect_result_is_clamped[OF cap_build cap_wf cap_fits d cap_events_inc_two]
  have a: "Apply cap_machine 3 ''inc_two'' = Normalize cap_machine (clampState cap_builder 4)"
    using t e by simp
  have f: "getRaw (clampState cap_builder 7) cap_x = 4"
    using t v c r7 by simp
  have h: "in_domain cap_builder 3 \<and> (0::int) \<le> 2 \<and> GetInt 3 cap_x + 2 < 2 ^ 63"
    using d g3 by simp
  from t have i: "\<forall>t k. \<forall>v \<in> set (b_vars cap_builder).
               in_domain cap_builder t \<and> 0 \<le> k \<and> GetInt t v + k < 2 ^ 63 \<longrightarrow>
                 GetInt (SetInt t v (go_int (GetInt t v + k))) v
                   = min (GetInt t v + k) (var_min v + var_domain v - 1)"
    by (elim conjE)
  have "GetInt (SetInt 3 cap_x (go_int (GetInt 3 cap_x + 2))) cap_x
          = min (GetInt 3 cap_x + 2) (var_min cap_x + var_domain cap_x - 1)"
    using i[rule_format, OF v h] .
  then have s: "GetInt (SetInt 3 cap_x (go_int (GetInt 3 cap_x + 2))) cap_x = 4"
    using c g3 by simp
  from cap_build cap_wf cap_fits d cap_events_inc_two e a f g3 s show ?thesis by blast
qed

text \<open>
  Claim C7 as stated fails: \<^verbatim>\<open>Int("x", MaxInt64 - 2, MaxInt64)\<close> declares a variable
  of three values, and the event \<open>x := x + 1\<close> is written as the increments of the
  examples are. \<^verbatim>\<open>Build\<close> succeeds. In the state 2 the variable is at its maximum
  \<open>2^63 - 1\<close>; the sum \<open>x + 1\<close> overflows to \<open>-2^63\<close>, \<^verbatim>\<open>SetInt\<close> clamps that to
  the minimum, and the event returns the state 0: the variable has gone from the top
  of its domain to the bottom.
\<close>

theorem increment_at_the_top_wraps:
  "Int_var (NewBuilder ''top'') ''x'' (2 ^ 63 - 3) (2 ^ 63 - 1)
     = Inr (top_x, top_builder\<lparr>b_events := []\<rparr>)
   \<and> in_domain top_builder 2 \<and> GetInt 2 top_x = 2 ^ 63 - 1
   \<and> go_int (GetInt 2 top_x + 1) = - (2 ^ 63)
   \<and> (case Build top_builder of Inl e \<Rightarrow> None | Inr m \<Rightarrow> Some (m_nf m, m_step m))
       = Some ([0, 1, 2, 3], [[1, 2, 0, 0]])
   \<and> bindE (Build top_builder) (\<lambda>m. Apply m 2 ''inc'') = Inr 0
   \<and> GetInt 0 top_x = 2 ^ 63 - 3"
proof -
  have g: "go_int 3 = 3" by code_simp
  have n: "bitsNeeded 3 = 2" by code_simp
  have a: "Int_var (NewBuilder ''top'') ''x'' (2 ^ 63 - 3) (2 ^ 63 - 1)
             = Inr (top_x, top_builder\<lparr>b_events := []\<rparr>)"
    by (simp add: Int_var_def NewBuilder_def Let_def g n top_x_def top_builder_def)
  have b: "in_domain top_builder 2 \<and> GetInt 2 top_x = 2 ^ 63 - 1
   \<and> go_int (GetInt 2 top_x + 1) = - (2 ^ 63)
   \<and> (case Build top_builder of Inl e \<Rightarrow> None | Inr m \<Rightarrow> Some (m_nf m, m_step m))
       = Some ([0, 1, 2, 3], [[1, 2, 0, 0]])
   \<and> bindE (Build top_builder) (\<lambda>m. Apply m 2 ''inc'') = Inr 0
   \<and> GetInt 0 top_x = 2 ^ 63 - 3"
    by code_simp
  from a b show ?thesis by blast
qed

text \<open>
  Claim C8, as amended. A repair that writes outside the declared footprint is not
  rejected. \<^verbatim>\<open>InvariantBuilder.Add\<close> rejects a declaration only for a missing check
  or a missing repair function and registers it otherwise, whatever its footprint; and
  the normal-form and step-table phases of \<^verbatim>\<open>Build\<close> give the same result whatever
  footprints the invariants declare.
\<close>

theorem Add_rejects_only_missing_functions:
  "(InvariantBuilder_Add b ib =
      (if ib_check ib = None then Inl (NoCheckFunction (ib_name ib))
       else if ib_repair ib = None then Inl (NoRepairFunction (ib_name ib))
       else Inr (b\<lparr>b_invariants := b_invariants b @
                   [\<lparr>inv_name = ib_name ib, inv_footprint = ib_footprint ib,
                     inv_check = the (ib_check ib), inv_repair = the (ib_repair ib)\<rparr>]\<rparr>)))
   \<and> computeNormalForms
         (b\<lparr>b_invariants := map (\<lambda>iv. iv\<lparr>inv_footprint := f iv\<rparr>) (b_invariants b)\<rparr>) P sc valid
       = computeNormalForms b P sc valid
   \<and> computeStepTables
         (b\<lparr>b_invariants := map (\<lambda>iv. iv\<lparr>inv_footprint := f iv\<rparr>) (b_invariants b)\<rparr>) P valid nf
       = computeStepTables b P valid nf"
  by (auto simp: InvariantBuilder_Add_def computeNormalForms_footprint computeStepTables_footprint
      split: option.splits)

theorem Add_rejects_only_missing_functions_witness:
  "InvariantBuilder_Add leak_builder (Invariant ''bare'') = Inl (NoCheckFunction ''bare'')
   \<and> map inv_footprint (b_invariants (leak_builder\<lparr>b_invariants :=
        map (\<lambda>iv. iv\<lparr>inv_footprint := [0, 1]\<rparr>) (b_invariants leak_builder)\<rparr>)) = [[0, 1]]
   \<and> computeNormalForms
         (leak_builder\<lparr>b_invariants := map (\<lambda>iv. iv\<lparr>inv_footprint := [0, 1]\<rparr>) (b_invariants leak_builder)\<rparr>)
         4 4 (validMask leak_builder 4) = Inr [0, 2, 2, 2]
   \<and> computeNormalForms leak_builder 4 4 (validMask leak_builder 4) = Inr [0, 2, 2, 2]"
proof -
  have a: "map inv_footprint (b_invariants (leak_builder\<lparr>b_invariants :=
        map (\<lambda>iv. iv\<lparr>inv_footprint := [0, 1]\<rparr>) (b_invariants leak_builder)\<rparr>)) = [[0, 1]]"
    by (simp add: leak_builder_def)
  have c: "computeNormalForms leak_builder 4 4 (validMask leak_builder 4) = Inr [0, 2, 2, 2]"
    by code_simp
  have n: "ib_check (Invariant ''bare'') = None" "ib_name (Invariant ''bare'') = ''bare''"
    by (simp_all add: Invariant_def)
  from Add_rejects_only_missing_functions[of leak_builder "Invariant ''bare''" "\<lambda>iv. [0, 1]" 4 4
      "validMask leak_builder 4"] a c n
  show ?thesis by simp
qed

text \<open>
  Claim C8 as stated fails: the repair of \<open>a_off\<close> declares the footprint \<open>{a}\<close>
  and changes \<open>c\<close> on the in-domain state 1; \<^verbatim>\<open>Add\<close> accepts the declaration and
  \<^verbatim>\<open>Build\<close> returns a machine.
\<close>

theorem repair_outside_footprint_builds:
  "InvariantBuilder_Add (leak_builder\<lparr>b_invariants := []\<rparr>) leak_decl = Inr leak_builder
   \<and> inv_footprint (b_invariants leak_builder ! 0) = [0] \<and> var_index leak_c = 1
   \<and> in_domain leak_builder 1 \<and> getRaw 1 leak_c = 0
   \<and> getRaw (inv_repair (b_invariants leak_builder ! 0) 1) leak_c = 1
   \<and> (case Build leak_builder of Inl e \<Rightarrow> None | Inr m \<Rightarrow> Some (m_nf m, m_step m))
       = Some ([0, 2, 2, 2], [[2, 2, 2, 2]])
   \<and> bindE (Build leak_builder) (\<lambda>m. Apply m 0 ''set_a'') = Inr 2"
proof -
  have a: "InvariantBuilder_Add (leak_builder\<lparr>b_invariants := []\<rparr>) leak_decl = Inr leak_builder"
    by (simp add: InvariantBuilder_Add_def leak_decl_def Repair_def Check_def Over_def Invariant_def
        leak_builder_def leak_a_def)
  have b: "inv_footprint (b_invariants leak_builder ! 0) = [0] \<and> var_index leak_c = 1
   \<and> in_domain leak_builder 1 \<and> getRaw 1 leak_c = 0
   \<and> getRaw (inv_repair (b_invariants leak_builder ! 0) 1) leak_c = 1
   \<and> (case Build leak_builder of Inl e \<Rightarrow> None | Inr m \<Rightarrow> Some (m_nf m, m_step m))
       = Some ([0, 2, 2, 2], [[2, 2, 2, 2]])
   \<and> bindE (Build leak_builder) (\<lambda>m. Apply m 0 ''set_a'') = Inr 2"
    by code_simp
  from a b show ?thesis by blast
qed

text \<open>
  Claim C9. \<^verbatim>\<open>Apply\<close> fails with the unknown-event error exactly when the name is
  absent from the machine's event dictionary. For a name that is present, on a machine
  returned by \<^verbatim>\<open>Build\<close> and a state of its padded address space, it returns the
  entry of the step table at the name's index and the state's id. An empty event set
  never makes the build fail: when the size checks and the normal-form phase pass,
  \<^verbatim>\<open>Build\<close> succeeds, and every \<^verbatim>\<open>Apply\<close> on the result is an unknown-event
  error.
\<close>

theorem Apply_unknown_event:
  "((\<exists>n. Apply m s name = Inl (UnknownEvent n)) \<longleftrightarrow> m_events m name = None)
   \<and> (m_events m name = None \<longrightarrow> Apply m s name = Inl (UnknownEvent name))
   \<and> (\<forall>b ei. Build b = Inr m \<and> m_events m name = Some ei \<and> unat s < 2 ^ b_totalBits b \<longrightarrow>
         Apply m s name = Inr (m_step m ! ei ! unat s))
   \<and> (\<forall>b nf. wf_builder b \<and> b_events b = [] \<and> b_totalBits b \<le> 20
          \<and> stateCountOf (b_vars b) \<le> maxStateSpace
          \<and> computeNormalForms b (2 ^ b_totalBits b) (stateCountOf (b_vars b))
                (validMask b (2 ^ b_totalBits b)) = Inr nf \<longrightarrow>
         (\<exists>m'. Build b = Inr m' \<and> (\<forall>s' name'. Apply m' s' name' = Inl (UnknownEvent name'))))"
proof -
  have p1: "(\<exists>n. Apply m s name = Inl (UnknownEvent n)) \<longleftrightarrow> m_events m name = None"
    by (auto simp: Apply_def bindE_def idx_def split: option.splits sum.splits if_splits)
  have p2: "m_events m name = None \<longrightarrow> Apply m s name = Inl (UnknownEvent name)"
    by (simp add: Apply_def)
  have p3: "Apply m s name = Inr (m_step m ! ei ! unat s)"
    if h: "Build b = Inr m" "m_events m name = Some ei" "unat s < 2 ^ b_totalBits b" for b ei
  proof -
    have ei: "ei < length (b_events b)"
      using h(2) Build_Inr(5)[OF h(1)] eventsMap_bound by simp
    note st = computeStepTables_Inr[OF Build_Inr(3)[OF h(1)]]
    show ?thesis using h(2,3) st(1) st(2)[OF ei] ei by (simp add: Apply_def bindE_def idx_def)
  qed
  have p4: "\<exists>m'. Build b = Inr m' \<and> (\<forall>s' name'. Apply m' s' name' = Inl (UnknownEvent name'))"
    if h: "wf_builder b" "b_events b = []" "b_totalBits b \<le> 20"
      "stateCountOf (b_vars b) \<le> maxStateSpace"
      "computeNormalForms b (2 ^ b_totalBits b) (stateCountOf (b_vars b))
                (validMask b (2 ^ b_totalBits b)) = Inr nf" for b nf
  proof -
    let ?m = "\<lparr>m_name = b_name b, m_vars = b_vars b, m_events = eventsMap (b_events b),
               m_step = [], m_nf = nf\<rparr>"
    have st: "computeStepTables b (2 ^ b_totalBits b) (validMask b (2 ^ b_totalBits b)) nf = Inr []"
      by (simp add: computeStepTables_def h(2))
    have cc: "verifyCC b (2 ^ b_totalBits b) (validMask b (2 ^ b_totalBits b)) [] = Inr ()"
      by (simp add: verifyCC_def pairsToCheck_no_events[OF h(1,2)])
    have "Build b = Inr ?m"
      using h(3,4,5) st cc by (simp add: Build_def Let_def bindE_def)
    moreover have "Apply ?m s' name' = Inl (UnknownEvent name')" for s' name'
      by (simp add: Apply_def h(2) eventsMap_Nil)
    ultimately show ?thesis by blast
  qed
  from p1 p2 p3 p4 show ?thesis by blast
qed

theorem Apply_unknown_event_witness:
  "Build cap_builder = Inr cap_machine \<and> m_events cap_machine ''inc_one'' = Some 0
   \<and> unat (3 :: 64 word) < 2 ^ b_totalBits cap_builder
   \<and> Apply cap_machine 3 ''inc_one'' = Inr (m_step cap_machine ! 0 ! unat (3 :: 64 word))
   \<and> m_events cap_machine ''reset'' = None
   \<and> Apply cap_machine 3 ''reset'' = Inl (UnknownEvent ''reset'')
   \<and> wf_builder quiet_builder \<and> b_events quiet_builder = [] \<and> b_totalBits quiet_builder \<le> 20
   \<and> stateCountOf (b_vars quiet_builder) \<le> maxStateSpace
   \<and> (\<exists>m'. Build quiet_builder = Inr m' \<and> Apply m' 0 ''inc_one'' = Inl (UnknownEvent ''inc_one''))"
proof -
  have r: "unat (3 :: 64 word) < 2 ^ b_totalBits cap_builder" by (simp add: cap_bits)
  have n: "m_events cap_machine ''reset'' = None" by code_simp
  have e: "b_events quiet_builder = []" by (simp add: quiet_builder_def)
  have tb: "b_totalBits quiet_builder \<le> 20" by (simp add: quiet_builder_def cap_builder_def)
  have sc: "stateCountOf (b_vars quiet_builder) \<le> maxStateSpace" by code_simp
  have a: "Apply cap_machine 3 ''inc_one'' = Inr (m_step cap_machine ! 0 ! unat (3 :: 64 word))"
    using Apply_unknown_event[of cap_machine 3 "''inc_one''"] cap_build cap_events_inc_one r by blast
  have u: "Apply cap_machine 3 ''reset'' = Inl (UnknownEvent ''reset'')"
    using Apply_unknown_event[of cap_machine 3 "''reset''"] n by blast
  have q: "\<exists>m'. Build quiet_builder = Inr m' \<and> Apply m' 0 ''inc_one'' = Inl (UnknownEvent ''inc_one'')"
    using Apply_unknown_event[of cap_machine 3 "''reset''"] quiet_wf e tb sc quiet_phase1 by blast
  from cap_build cap_events_inc_one r a n u quiet_wf e tb sc q show ?thesis by blast
qed

text \<open>
  Claim C10, as amended. For a variable of a declaration whose ranges fit the 64-bit
  integer (the size \<open>max - min + 1\<close> of no \<^verbatim>\<open>Int\<close> range wrapped) and whose layout
  fits the 64-bit packed state, \<^verbatim>\<open>SetInt\<close> clamps its argument: the stored value reads
  back as the minimum when the argument is below it, as the maximum when above, and as
  the argument otherwise, and the written field holds a raw value in \<open>[0, domain)\<close>.
  On an in-domain state each of \<^verbatim>\<open>SetInt\<close>, \<^verbatim>\<open>SetBool\<close> and \<^verbatim>\<open>Set\<close> (when it does
  not panic on an unknown label), called on a variable of the declaration, returns an
  in-domain state.
\<close>

theorem SetInt_clamps_into_range:
  assumes "wf_builder b" and "ranges_fit b" and "b_totalBits b \<le> 64" and "v \<in> set (b_vars b)"
  shows "GetInt (SetInt s v x) v =
           (if x < var_min v then var_min v
            else if x > var_min v + var_domain v - 1 then var_min v + var_domain v - 1
            else x)
         \<and> 0 \<le> sint (getRaw (SetInt s v x) v) \<and> sint (getRaw (SetInt s v x) v) < var_domain v
         \<and> (in_domain b s \<longrightarrow>
              in_domain b (SetInt s v x) \<and> in_domain b (SetBool s v bv)
              \<and> (\<forall>l s'. Set s v l = Inr s' \<longrightarrow> in_domain b s'))"
proof -
  note g = GetInt_SetInt[OF assms, of s x]
  have keep: "in_domain b (SetInt s v x) \<and> in_domain b (SetBool s v bv)
              \<and> (\<forall>l s'. Set s v l = Inr s' \<longrightarrow> in_domain b s')" if d: "in_domain b s"
    using SetInt_in_domain[OF assms d] SetBool_in_domain[OF assms d] Set_in_domain[OF assms d]
    by blast
  from g keep show ?thesis by blast
qed

theorem SetInt_clamps_into_range_witness:
  "wf_builder cap_builder \<and> ranges_fit cap_builder \<and> b_totalBits cap_builder \<le> 64
   \<and> cap_x \<in> set (b_vars cap_builder)
   \<and> GetInt (SetInt 9 cap_x 7) cap_x = 4 \<and> GetInt (SetInt 9 cap_x (- 2)) cap_x = 0
   \<and> GetInt (SetInt 9 cap_x 2) cap_x = 2
   \<and> in_domain cap_builder 9 \<and> in_domain cap_builder (SetInt 9 cap_x 7)
   \<and> in_domain cap_builder (SetBool 9 cap_x True)"
proof -
  have tb: "b_totalBits cap_builder \<le> 64" by (simp add: cap_bits)
  have v: "cap_x \<in> set (b_vars cap_builder)" by (simp add: cap_builder_def)
  have d: "in_domain cap_builder 9" by code_simp
  have c: "var_min cap_x = 0" "var_domain cap_x = 5" by (simp_all add: cap_x_def)
  have a: "GetInt (SetInt 9 cap_x 7) cap_x = 4"
    using SetInt_clamps_into_range[OF cap_wf cap_fits tb v, of 9 7] c by simp
  have b: "GetInt (SetInt 9 cap_x (- 2)) cap_x = 0"
    using SetInt_clamps_into_range[OF cap_wf cap_fits tb v, of 9 "- 2"] c by simp
  have e: "GetInt (SetInt 9 cap_x 2) cap_x = 2"
    using SetInt_clamps_into_range[OF cap_wf cap_fits tb v, of 9 2] c by simp
  have k: "in_domain cap_builder (SetInt 9 cap_x 7) \<and> in_domain cap_builder (SetBool 9 cap_x True)"
    using SetInt_clamps_into_range[OF cap_wf cap_fits tb v, of 9 7 True] d by blast
  from cap_wf cap_fits tb v a b e d k show ?thesis by blast
qed

text \<open>
  Claim C10 as stated fails: \<^verbatim>\<open>Int("v", 0, MaxInt64)\<close> is accepted and declares a
  variable whose domain size has wrapped to \<open>-2^63\<close>, with no bits. The value 5 lies
  in its range \<open>[0, 2^63 - 1]\<close>, and \<^verbatim>\<open>SetInt\<close> of 5 reads back as 0; the raw value it
  stores is not below the domain size, so the state it returns is not in-domain.
\<close>

theorem SetInt_loses_value_in_wrapped_range:
  "Int_var (NewBuilder ''big'') ''v'' 0 (2 ^ 63 - 1) = Inr (big_v, big_builder)
   \<and> SetInt 0 big_v 5 = 0 \<and> GetInt (SetInt 0 big_v 5) big_v = 0
   \<and> sint (getRaw (SetInt 0 big_v 5) big_v) = 0 \<and> var_domain big_v = - (2 ^ 63)
   \<and> \<not> isValidEncoding big_builder (SetInt 0 big_v 5)
   \<and> \<not> in_domain big_builder (SetInt 0 big_v 5)"
proof -
  have g: "go_int (2 ^ 63 - 1 - 0 + 1) = - (2 ^ 63)" by code_simp
  have n: "bitsNeeded (- (2 ^ 63)) = 0" by code_simp
  have a: "Int_var (NewBuilder ''big'') ''v'' 0 (2 ^ 63 - 1) = Inr (big_v, big_builder)"
    using g n by (simp add: Int_var_def NewBuilder_def Let_def big_v_def big_builder_def)
  have b: "SetInt 0 big_v 5 = 0 \<and> GetInt (SetInt 0 big_v 5) big_v = 0
   \<and> sint (getRaw (SetInt 0 big_v 5) big_v) = 0 \<and> var_domain big_v = - (2 ^ 63)
   \<and> \<not> isValidEncoding big_builder (SetInt 0 big_v 5)
   \<and> \<not> in_domain big_builder (SetInt 0 big_v 5)"
    by code_simp
  from a b show ?thesis by blast
qed

section \<open>Further properties of the tables\<close>

text \<open>
  On a machine returned by \<^verbatim>\<open>Build\<close>, \<^verbatim>\<open>IsValid\<close> of an in-domain state is true
  exactly when every invariant check holds on it, as the method's comment says: the
  normal form of a state that violates an invariant differs from the state, because the
  repair loop fails on any state it has seen before.
\<close>

theorem IsValid_iff_invariants_hold:
  assumes "Build b = Inr m" and "in_domain b s"
  shows "IsValid m s = Inr (allInvariantsHold b s)"
proof (cases "allInvariantsHold b s")
  case True
  then show ?thesis
    using nf_valid_fixed[OF assms True] nf_in_domain_entry(1)[OF assms]
    by (simp add: IsValid_def bindE_def idx_def)
next
  case False
  obtain d where d: "repairLoop b (stateCountOf (b_vars b)) {s} 0 s = Inr (m_nf m ! unat s, d)"
    using nf_in_domain_entry(2)[OF assms] by blast
  have "m_nf m ! unat s \<noteq> s" using repairLoop_fresh[OF d False] by simp
  then show ?thesis using False nf_in_domain_entry(1)[OF assms]
    by (simp add: IsValid_def bindE_def idx_def)
qed

theorem IsValid_iff_invariants_hold_witness:
  "Build cap_builder = Inr cap_machine \<and> in_domain cap_builder 4
   \<and> \<not> allInvariantsHold cap_builder 4 \<and> IsValid cap_machine 4 = Inr False"
proof -
  have d: "in_domain cap_builder 4" by code_simp
  have n: "\<not> allInvariantsHold cap_builder 4" by code_simp
  from IsValid_iff_invariants_hold[OF cap_build d] n cap_build d show ?thesis by simp
qed

text \<open>
  The pass of \<^verbatim>\<open>computeNormalForms\<close> that looks for a valid state moved by
  compensation never reports one: a state on which every check holds does not enter
  the repair loop, so its table entry is the state itself.
\<close>

lemma mapE_Inl: "mapE f xs = Inl e \<Longrightarrow> \<exists>x\<in>set xs. f x = Inl e"
  by (induction xs) (auto split: sum.splits)

lemma repairLoop_Inl: "repairLoop b sc seen d s = Inl e \<Longrightarrow> e = WFCFailed"
proof (induction b sc seen d s rule: repairLoop.induct)
  case (1 b sc seen d s)
  show ?case
  proof (cases "allInvariantsHold b s")
    case True
    with "1.prems" show ?thesis by (simp add: repairLoop_valid)
  next
    case False
    show ?thesis
    proof (cases "applyFirstRepair b s \<in> seen \<or> int (d + 1) > sc")
      case True
      with "1.prems" False show ?thesis by (subst (asm) repairLoop.simps) auto
    next
      case c: False
      with "1.prems" False
      have "repairLoop b sc (insert (applyFirstRepair b s) seen) (d + 1) (applyFirstRepair b s) = Inl e"
        by (subst (asm) repairLoop.simps) auto
      from "1.IH"[OF False c this] show ?thesis .
    qed
  qed
qed

theorem post_pass_never_fails:
  "computeNormalForms b P sc valid \<noteq> Inl (MovesValidState s)"
proof
  assume a: "computeNormalForms b P sc valid = Inl (MovesValidState s)"
  show False
  proof (cases "mapE (nfEntry b sc valid) [0..<P]")
    case (Inl e)
    then have "e = MovesValidState s" using a by (simp add: computeNormalForms_def)
    moreover obtain i where "nfEntry b sc valid i = Inl e" using mapE_Inl[OF Inl] by blast
    then have "e = WFCFailed" using repairLoop_Inl by (auto simp: nfEntry_def split: if_splits)
    ultimately show False by simp
  next
    case (Inr es)
    note m = mapE_upt[OF Inr]
    from a Inr obtain i where
      f: "find (\<lambda>i. valid ! i \<and> allInvariantsHold b (word_of_nat i) \<and> map fst es ! i \<noteq> word_of_nat i) [0..<P] = Some i"
      by (auto simp: computeNormalForms_def Let_def split: option.splits)
    then have i: "i < P" "valid ! i" "allInvariantsHold b (word_of_nat i)"
      "map fst es ! i \<noteq> word_of_nat i"
      by (auto simp: find_Some_iff)
    have "nfEntry b sc valid i = Inr (es ! i)" using m i(1) by simp
    then have "es ! i = (word_of_nat i, 0)"
      using i(2) repairLoop_valid[OF i(3)] by (simp add: nfEntry_def)
    then show False using i(1,4) m by simp
  qed
qed

end
